theory Spec2Isabelle
  imports
    Main
    "HOL-Library.Word"
    "HOL-Library.Multiset"
    "HOL-Library.Sublist"
    "HOL-Library.Char_ord"
begin

unbundle bit_operations_syntax

section \<open>dupfind: data model\<close>

text \<open>
  The structs of \<^verbatim>\<open>dupfind.c\<close>.  A \<^verbatim>\<open>file_t\<close> is the snapshot of one path taken
  by \<^verbatim>\<open>stat(2)\<close> in phase one; \<^verbatim>\<open>nlink_t\<close>, \<^verbatim>\<open>dev_t\<close> and \<^verbatim>\<open>ino_t\<close> are unsigned, so
  they are naturals here, and the one place where the width of an integer shows
  (the \<^verbatim>\<open>gint\<close> result of \<^verbatim>\<open>sort_compare\<close>) writes the truncation out.
\<close>

type_synonym byte = "8 word"

record file_t =
  name :: string
  st_size :: int
  st_nlink :: nat
  st_mode :: nat
  st_dev :: nat
  st_ino :: nat

text \<open>\<^verbatim>\<open>delete_t\<close>; its field \<^verbatim>\<open>file\<close> is \<open>file'\<close> here.\<close>

record delete_t =
  file' :: file_t
  keep :: int

subsection \<open>Command line flags\<close>

definition OPT_HARDLINKS :: "64 word" where "OPT_HARDLINKS = 0x008"
definition OPT_SAMELINE :: "64 word" where "OPT_SAMELINE = 0x020"
definition OPT_OMITFIRST :: "64 word" where "OPT_OMITFIRST = 0x040"
definition OPT_SHOWSIZE :: "64 word" where "OPT_SHOWSIZE = 0x080"
definition OPT_DELETE :: "64 word" where "OPT_DELETE = 0x100"
definition OPT_LINK :: "64 word" where "OPT_LINK = 0x200"

definition CHUNK_SIZE :: nat where "CHUNK_SIZE = 8192"

section \<open>C library functions used by the program\<close>

text \<open>
  \<^verbatim>\<open>strcmp\<close> and \<^verbatim>\<open>strncmp\<close> compare bytes as \<^verbatim>\<open>unsigned char\<close>; ISO C fixes only the
  sign of the result, which is what the model returns.
\<close>

fun strcmp :: "string \<Rightarrow> string \<Rightarrow> int" where
  "strcmp [] [] = 0"
| "strcmp [] (y # ys) = -1"
| "strcmp (x # xs) [] = 1"
| "strcmp (x # xs) (y # ys) =
     (if (of_char x :: nat) < of_char y then -1
      else if (of_char y :: nat) < of_char x then 1
      else strcmp xs ys)"

fun strncmp :: "string \<Rightarrow> string \<Rightarrow> nat \<Rightarrow> int" where
  "strncmp xs ys 0 = 0"
| "strncmp [] [] (Suc n) = 0"
| "strncmp [] (y # ys) (Suc n) = -1"
| "strncmp (x # xs) [] (Suc n) = 1"
| "strncmp (x # xs) (y # ys) (Suc n) =
     (if (of_char x :: nat) < of_char y then -1
      else if (of_char y :: nat) < of_char x then 1
      else strncmp xs ys n)"

text \<open>Conversion of an integer value to the 32-bit \<^verbatim>\<open>gint\<close>/\<^verbatim>\<open>int\<close>: the low 32 bits,
  read as two's complement.\<close>

definition to_gint :: "int \<Rightarrow> int" where
  "to_gint v = (v + 2 ^ 31) mod 2 ^ 32 - 2 ^ 31"

section \<open>Phase three: ordering and hard-link filtering\<close>

text \<open>
  \<^verbatim>\<open>sort_compare\<close>: the difference of the link counts, converted to \<^verbatim>\<open>gint\<close>; when that
  is zero, \<^verbatim>\<open>strcmp\<close> of the names.
\<close>

definition sort_compare :: "file_t \<Rightarrow> file_t \<Rightarrow> int" where
  "sort_compare fa fb =
     (let res = to_gint (int (st_nlink fb) - int (st_nlink fa))
      in if res = 0 then strcmp (name fa) (name fb) else res)"

text \<open>
  \<^verbatim>\<open>g_list_sort\<close> is GLib's: a merge sort that cuts the list after \<open>n div 2\<close> elements
  and, on merging, takes from the first list when the comparison is \<open>\<le> 0\<close>.
\<close>

fun g_list_sort_merge :: "'a list \<Rightarrow> 'a list \<Rightarrow> ('a \<Rightarrow> 'a \<Rightarrow> int) \<Rightarrow> 'a list" where
  "g_list_sort_merge [] l2 cmp = l2"
| "g_list_sort_merge l1 [] cmp = l1"
| "g_list_sort_merge (x # l1) (y # l2) cmp =
     (if cmp x y \<le> 0 then x # g_list_sort_merge l1 (y # l2) cmp
      else y # g_list_sort_merge (x # l1) l2 cmp)"

fun g_list_sort :: "'a list \<Rightarrow> ('a \<Rightarrow> 'a \<Rightarrow> int) \<Rightarrow> 'a list" where
  "g_list_sort xs cmp =
     (if length xs \<le> 1 then xs
      else g_list_sort_merge (g_list_sort (take (length xs div 2) xs) cmp)
             (g_list_sort (drop (length xs div 2) xs) cmp) cmp)"

declare g_list_sort.simps [simp del]

text \<open>
  \<^verbatim>\<open>filter_links\<close>: the inner \<^verbatim>\<open>for\<close> loop looks for a record of \<^verbatim>\<open>new_list\<close> with the
  device and inode of \<^verbatim>\<open>fp1\<close>; the outer loop appends \<^verbatim>\<open>fp1\<close> when none is found.
\<close>

fun links_found :: "file_t list \<Rightarrow> file_t \<Rightarrow> bool" where
  "links_found [] fp1 = False"
| "links_found (fp2 # ptr) fp1 =
     (if st_dev fp2 = st_dev fp1 \<and> st_ino fp2 = st_ino fp1 then True
      else links_found ptr fp1)"

fun filter_links_loop :: "file_t list \<Rightarrow> file_t list \<Rightarrow> file_t list" where
  "filter_links_loop [] new_list = new_list"
| "filter_links_loop (fp1 # rest) new_list =
     filter_links_loop rest
       (if links_found new_list fp1 then new_list else new_list @ [fp1])"

definition filter_links :: "file_t list \<Rightarrow> file_t list" where
  "filter_links xs =
     (case xs of [] \<Rightarrow> [] | x # rest \<Rightarrow> filter_links_loop rest [x])"

section \<open>The world the program runs in\<close>

text \<open>
  The file system as far as the program uses it: directory entries map a path to an
  inode number, an inode holds the bytes of the file.  Two paths with the same inode
  number are hard links.  An inode can refuse to be opened (\<open>i_perm\<close> false), and can
  have a bad spot (\<open>i_bad\<close>): a \<^verbatim>\<open>read\<close> whose range covers that offset returns -1.
  A path can be locked (its directory is not writable): \<^verbatim>\<open>unlink\<close> and \<^verbatim>\<open>link\<close> fail on it.
\<close>

record inode_t =
  i_data :: "byte list"
  i_bad :: "nat option"
  i_perm :: bool

text \<open>\<^verbatim>\<open>struct stat\<close>, as far as the program reads it (the fields \<^verbatim>\<open>st_mode\<close>, \<^verbatim>\<open>st_size\<close>,
  \<^verbatim>\<open>st_nlink\<close>, \<^verbatim>\<open>st_dev\<close>, \<^verbatim>\<open>st_ino\<close>, named \<open>sb_\<dots>\<close> here).\<close>

record stat_t =
  sb_mode :: nat
  sb_size :: int
  sb_nlink :: nat
  sb_dev :: nat
  sb_ino :: nat

text \<open>Phase one sees the file system through \<^verbatim>\<open>lstat\<close>, \<^verbatim>\<open>stat\<close> and \<^verbatim>\<open>readdir\<close>: what they
  answer for a path is part of the file system (\<open>fs_readdir\<close> is \<open>None\<close> when \<^verbatim>\<open>opendir\<close>
  fails).\<close>

record fs_t =
  fs_names :: "string \<Rightarrow> nat option"
  fs_inodes :: "nat \<Rightarrow> inode_t"
  fs_locked :: "string \<Rightarrow> bool"
  fs_lstat :: "string \<Rightarrow> stat_t option"
  fs_stat :: "string \<Rightarrow> stat_t option"
  fs_readdir :: "string \<Rightarrow> string list option"

text \<open>Arguments of a \<^verbatim>\<open>printf\<close> or \<^verbatim>\<open>g_log\<close> call; a line of output is the format string
  with its arguments.\<close>

datatype arg = Arg_s string | Arg_d int | Arg_c char

text \<open>The levels of \<^verbatim>\<open>g_log\<close>; \<open>Raw\<close> marks text written to \<^verbatim>\<open>stderr\<close> with \<^verbatim>\<open>fputs\<close>.\<close>

datatype level = Info | Warning | Critical | Raw

text \<open>A call of one of the three action functions, with its arguments.  The field
  \<open>w_calls\<close> of the world lists the calls made so far; no function of the program
  reads it.\<close>

datatype call =
    Call_link file_t file_t
  | Call_delete string file_t "file_t list"
  | Call_list file_t "file_t list"

record world =
  w_fs :: fs_t
  w_stdin :: string
  w_stdout :: "(string \<times> arg list) list"
  w_log :: "(level \<times> string \<times> arg list) list"
  w_calls :: "call list"

definition called :: "call \<Rightarrow> world \<Rightarrow> world" where
  "called c w = w\<lparr>w_calls := w_calls w @ [c]\<rparr>"

definition printf :: "string \<Rightarrow> arg list \<Rightarrow> world \<Rightarrow> world" where
  "printf fmt args w = w\<lparr>w_stdout := w_stdout w @ [(fmt, args)]\<rparr>"

definition fputs :: "string \<Rightarrow> world \<Rightarrow> world" where
  "fputs s w = printf s [] w"

definition g_log :: "level \<Rightarrow> string \<Rightarrow> arg list \<Rightarrow> world \<Rightarrow> world" where
  "g_log lvl fmt args w = w\<lparr>w_log := w_log w @ [(lvl, fmt, args)]\<rparr>"

definition g_warning :: "string \<Rightarrow> arg list \<Rightarrow> world \<Rightarrow> world" where
  "g_warning = g_log Warning"

definition g_critical :: "string \<Rightarrow> arg list \<Rightarrow> world \<Rightarrow> world" where
  "g_critical = g_log Critical"

subsection \<open>System calls\<close>

text \<open>A file descriptor open for reading: the inode and the file offset.\<close>

type_synonym fd_t = "nat \<times> nat"

definition sys_open :: "fs_t \<Rightarrow> string \<Rightarrow> fd_t option" where
  "sys_open fs nm =
     (case fs_names fs nm of
        None \<Rightarrow> None
      | Some i \<Rightarrow> if i_perm (fs_inodes fs i) then Some (i, 0) else None)"

text \<open>The result of \<^verbatim>\<open>read\<close>: -1, or the bytes put into the buffer (none at end of file).\<close>

datatype rd = Rd_err | Rd "byte list"

definition sys_read :: "fs_t \<Rightarrow> fd_t \<Rightarrow> nat \<Rightarrow> rd \<times> fd_t" where
  "sys_read fs fd nbyte =
     (let ino = fs_inodes fs (fst fd); pos = snd fd
      in if (case i_bad ino of None \<Rightarrow> False | Some e \<Rightarrow> pos \<le> e \<and> e < pos + nbyte)
         then (Rd_err, fd)
         else (let buf = take nbyte (drop pos (i_data ino))
               in (Rd buf, (fst fd, pos + length buf))))"

definition sys_unlink :: "fs_t \<Rightarrow> string \<Rightarrow> fs_t option" where
  "sys_unlink fs nm =
     (if fs_names fs nm \<noteq> None \<and> \<not> fs_locked fs nm
      then Some (fs\<lparr>fs_names := (fs_names fs)(nm := None)\<rparr>)
      else None)"

definition sys_link :: "fs_t \<Rightarrow> string \<Rightarrow> string \<Rightarrow> fs_t option" where
  "sys_link fs old new =
     (case fs_names fs old of
        None \<Rightarrow> None
      | Some i \<Rightarrow>
          if fs_names fs new = None \<and> \<not> fs_locked fs new
          then Some (fs\<lparr>fs_names := (fs_names fs)(new \<mapsto> i)\<rparr>)
          else None)"

text \<open>\<^verbatim>\<open>memcmp\<close> over the first \<open>n\<close> bytes of two buffers, as a sign.  The program calls
  it with \<open>n\<close> the number of bytes read into both buffers, so the last equation
  (a buffer shorter than \<open>n\<close>) is never reached.\<close>

fun memcmp :: "byte list \<Rightarrow> byte list \<Rightarrow> nat \<Rightarrow> int" where
  "memcmp xs ys 0 = 0"
| "memcmp (x # xs) (y # ys) (Suc n) =
     (if unat x < unat y then -1 else if unat y < unat x then 1 else memcmp xs ys n)"
| "memcmp xs ys (Suc n) = 0"

section \<open>Phase three: byte-by-byte comparison\<close>

text \<open>
  The \<^verbatim>\<open>do \<dots> while\<close> loop of \<^verbatim>\<open>compare_files\<close>, entered with both files open.  A failed
  read logs and leaves with status 0; two reads of 0 bytes leave with status 1; the
  loop goes round again while both reads gave the same number of equal bytes.
\<close>

function compare_loop :: "string \<Rightarrow> string \<Rightarrow> fd_t \<Rightarrow> fd_t \<Rightarrow> world \<Rightarrow> int \<times> world" where
  "compare_loop name1 name2 fd1 fd2 w =
     (case sys_read (w_fs w) fd1 CHUNK_SIZE of
        (Rd_err, fd1') \<Rightarrow>
          (0, g_critical ''read error on file '%s' - %m'' [Arg_s name1] w)
      | (Rd buf1, fd1') \<Rightarrow>
          (case sys_read (w_fs w) fd2 CHUNK_SIZE of
             (Rd_err, fd2') \<Rightarrow>
               (0, g_critical ''read error on file '%s' - %m'' [Arg_s name2] w)
           | (Rd buf2, fd2') \<Rightarrow>
               if length buf1 = 0 \<and> length buf2 = 0 then (1, w)
               else if length buf1 = length buf2 \<and> memcmp buf1 buf2 (length buf1) = 0
               then compare_loop name1 name2 fd1' fd2' w
               else (0, w)))"
  by pat_completeness auto
termination
  by (relation "measure (\<lambda>(name1, name2, fd1, fd2, w).
                  length (i_data (fs_inodes (w_fs w) (fst fd1))) - snd fd1)")
     (auto simp: sys_read_def Let_def min_def CHUNK_SIZE_def split: if_splits)

declare compare_loop.simps [simp del]

definition compare_files :: "file_t \<Rightarrow> file_t \<Rightarrow> world \<Rightarrow> int \<times> world" where
  "compare_files file1 file2 w =
     (case sys_open (w_fs w) (name file1) of
        Some fd1 \<Rightarrow>
          (case sys_open (w_fs w) (name file2) of
             Some fd2 \<Rightarrow> compare_loop (name file1) (name file2) fd1 fd2 w
           | None \<Rightarrow>
               (0, g_critical ''unable to open file '%s' for reading - %m''
                     [Arg_s (name file2)] w))
      | None \<Rightarrow>
          (0, g_critical ''unable to open file '%s' for reading - %m''
                [Arg_s (name file1)] w))"

section \<open>Phase three: the actions\<close>

text \<open>\<^verbatim>\<open>link_pair\<close>: unlink the slave's name, then link the master's name to it.\<close>

definition link_pair :: "file_t \<Rightarrow> file_t \<Rightarrow> world \<Rightarrow> world" where
  "link_pair master slave w =
     (case sys_unlink (w_fs w) (name slave) of
        Some fs1 \<Rightarrow>
          (case sys_link fs1 (name master) (name slave) of
             Some fs2 \<Rightarrow> w\<lparr>w_fs := fs2\<rparr>
           | None \<Rightarrow>
               g_warning ''unable to link '%s' to '%s' - %m''
                 [Arg_s (name master), Arg_s (name slave)] (w\<lparr>w_fs := fs1\<rparr>))
      | None \<Rightarrow> g_warning ''unable to unlink '%s' - %m'' [Arg_s (name slave)] w)"

subsection \<open>Reading the operator's answer\<close>

text \<open>
  \<^verbatim>\<open>fgets(buf, size, stdin)\<close> takes at most \<open>size - 1\<close> bytes from the input and stops
  after a newline; at end of input with nothing read it returns \<^verbatim>\<open>NULL\<close>.  The
  program then reads \<^verbatim>\<open>buf\<close> as a C string, which ends at the first NUL byte.
\<close>

fun fgets_chars :: "nat \<Rightarrow> string \<Rightarrow> string \<times> string" where
  "fgets_chars 0 s = ([], s)"
| "fgets_chars (Suc n) [] = ([], [])"
| "fgets_chars (Suc n) (c # s) =
     (if c = CHR 0x0A then ([c], s)
      else (case fgets_chars n s of (b, r) \<Rightarrow> (c # b, r)))"

definition c_str :: "string \<Rightarrow> string" where
  "c_str buf = takeWhile (\<lambda>c. c \<noteq> CHR 0x00) buf"

definition fgets :: "nat \<Rightarrow> string \<Rightarrow> (string \<times> string) option" where
  "fgets n s =
     (if s = [] then None
      else (case fgets_chars (n - 1) s of (b, r) \<Rightarrow> Some (c_str b, r)))"

text \<open>
  \<^verbatim>\<open>atoi\<close> as the GNU C library has it, \<^verbatim>\<open>(int) strtol(nptr, NULL, 10)\<close>: white space
  is skipped, a sign is taken, the digits that follow are the value, which \<^verbatim>\<open>strtol\<close>
  clamps to the range of \<^verbatim>\<open>long\<close> and the cast cuts to 32 bits.
\<close>

definition isspace :: "char \<Rightarrow> bool" where
  "isspace c = (c = CHR '' '' \<or> c = CHR 0x09 \<or> c = CHR 0x0A \<or> c = CHR 0x0B
                \<or> c = CHR 0x0C \<or> c = CHR 0x0D)"

definition isdigit :: "char \<Rightarrow> bool" where
  "isdigit c = (48 \<le> (of_char c :: nat) \<and> (of_char c :: nat) \<le> 57)"

fun digits_value :: "int \<Rightarrow> string \<Rightarrow> int" where
  "digits_value acc [] = acc"
| "digits_value acc (c # cs) =
     (if isdigit c then digits_value (acc * 10 + (of_char c - 48)) cs else acc)"

definition LONG_MAX :: int where "LONG_MAX = 2 ^ 63 - 1"
definition LONG_MIN :: int where "LONG_MIN = - (2 ^ 63)"

definition strtol :: "string \<Rightarrow> int" where
  "strtol nptr =
     (case dropWhile isspace nptr of
        [] \<Rightarrow> 0
      | c # cs \<Rightarrow>
          if c = CHR ''-'' then max LONG_MIN (- digits_value 0 cs)
          else if c = CHR ''+'' then min LONG_MAX (digits_value 0 cs)
          else min LONG_MAX (digits_value 0 (c # cs)))"

definition atoi :: "string \<Rightarrow> int" where
  "atoi nptr = to_gint (strtol nptr)"

text \<open>\<^verbatim>\<open>g_list_nth_data\<close>: the element at a position, \<^verbatim>\<open>NULL\<close> off the end of the list.\<close>

definition g_list_nth_data :: "'a list \<Rightarrow> nat \<Rightarrow> 'a option" where
  "g_list_nth_data xs n = (if n < length xs then Some (xs ! n) else None)"

subsection \<open>Interactive deletion\<close>

text \<open>The loop of \<^verbatim>\<open>delete_files\<close> that prints the numbered list with its marks.\<close>

fun print_entries :: "int \<Rightarrow> delete_t list \<Rightarrow> world \<Rightarrow> world" where
  "print_entries i [] w = w"
| "print_entries i (elem # ptr) w =
     print_entries (i + 1) ptr
       (printf ''%5d %c %s (%ld links)\<newline>''
          [Arg_d i, Arg_c (if keep elem \<noteq> 0 then CHR ''*'' else CHR '' ''),
           Arg_s (name (file' elem)), Arg_d (int (st_nlink (file' elem)))] w)"

definition print_disposition :: "string \<Rightarrow> delete_t list \<Rightarrow> world \<Rightarrow> world" where
  "print_disposition digest delete_list w =
     fputs (''\<newline>Files marked (*) will be kept - these reset deleted\<newline>'' @
            ''To toggle a file's status type its number\<newline>'' @
            ''Type 'go' to go ahead with the delete\<newline>'')
       (print_entries 1 delete_list
          (printf ''\<newline>Disposition of files with digest %s\<newline>\<newline>'' [Arg_s digest] w))"

text \<open>The loop run on \<^verbatim>\<open>go\<close>: every element whose \<^verbatim>\<open>keep\<close> is 0 is unlinked.\<close>

fun unlink_marked :: "delete_t list \<Rightarrow> world \<Rightarrow> world" where
  "unlink_marked [] w = w"
| "unlink_marked (elem # ptr) w =
     unlink_marked ptr
       (if keep elem = 0 then
          (case sys_unlink (w_fs w) (name (file' elem)) of
             Some fs1 \<Rightarrow> printf ''%s deleted\<newline>'' [Arg_s (name (file' elem))] (w\<lparr>w_fs := fs1\<rparr>)
           | None \<Rightarrow> g_warning ''unable to delete '%s' - %m'' [Arg_s (name (file' elem))] w)
        else w)"

lemma w_stdin_printf [simp]: "w_stdin (printf fmt args w) = w_stdin w"
  by (simp add: printf_def)

lemma w_stdin_fputs [simp]: "w_stdin (fputs s w) = w_stdin w"
  by (simp add: fputs_def)

lemma w_stdin_g_log [simp]: "w_stdin (g_log lvl fmt args w) = w_stdin w"
  by (simp add: g_log_def)

lemma w_stdin_print_entries [simp]: "w_stdin (print_entries i dl w) = w_stdin w"
  by (induction i dl w rule: print_entries.induct) simp_all

lemma w_stdin_print_disposition [simp]: "w_stdin (print_disposition d dl w) = w_stdin w"
  by (simp add: print_disposition_def)

lemma fgets_chars_shorter:
  "0 < n \<Longrightarrow> s \<noteq> [] \<Longrightarrow> fgets_chars n s = (b, r) \<Longrightarrow> length r < length s"
proof (induction n s arbitrary: b r rule: fgets_chars.induct)
  case (3 n c s)
  show ?case
  proof (cases "c = CHR 0x0A")
    case True
    with 3 show ?thesis by simp
  next
    case False
    obtain b' r' where e: "fgets_chars n s = (b', r')"
      by (cases "fgets_chars n s")
    with False "3.prems" have r: "r = r'"
      by simp
    have "length r' \<le> length s"
    proof (cases "0 < n \<and> s \<noteq> []")
      case True
      with "3.IH" [OF False _ _ e] show ?thesis by simp
    next
      case False
      with e show ?thesis by (cases n; cases s) auto
    qed
    with r show ?thesis by simp
  qed
qed simp_all

lemma fgets_shorter_gen: "1 < n \<Longrightarrow> fgets n s = Some (buf, r) \<Longrightarrow> length r < length s"
  by (auto simp: fgets_def split: if_splits prod.splits dest: fgets_chars_shorter [rotated 2])

lemma fgets_shorter: "fgets 20 s = Some (buf, r) \<Longrightarrow> length r < length s"
  by (rule fgets_shorter_gen [of 20]) simp_all

text \<open>
  The main loop of \<^verbatim>\<open>delete_files\<close>.  \<^verbatim>\<open>print_list\<close> is 1 on entry and after a toggle,
  0 otherwise.  The loop ends at end of input and on a line that starts with \<^verbatim>\<open>go\<close>.
\<close>

function delete_loop :: "string \<Rightarrow> delete_t list \<Rightarrow> bool \<Rightarrow> world \<Rightarrow> world" where
  "delete_loop digest delete_list print_list w =
     (let w1 = (if print_list then print_disposition digest delete_list w else w);
          w2 = fputs ''\<newline>> '' w1
      in case fgets 20 (w_stdin w2) of
           None \<Rightarrow> fputs ''*** EOF *** no action taken\<newline>'' w2
         | Some (buf, rest) \<Rightarrow>
             (let w3 = w2\<lparr>w_stdin := rest\<rparr>
              in if strncmp buf ''go'' 2 = 0 then unlink_marked delete_list w3
                 else (let i = atoi buf
                       in if i > 0 then
                            (case g_list_nth_data delete_list (nat (i - 1)) of
                               Some elem \<Rightarrow>
                                 delete_loop digest
                                   (delete_list[nat (i - 1) := elem\<lparr>keep := 1 - keep elem\<rparr>])
                                   True w3
                             | None \<Rightarrow>
                                 delete_loop digest delete_list False
                                   (printf ''no file number %d\<newline>'' [Arg_d i] w3))
                          else
                            delete_loop digest delete_list False
                              (fputs ''invalid input - please type a number or 'go'\<newline>''
                                 w3))))"
  by pat_completeness auto
termination
  by (relation "measure (\<lambda>(digest, delete_list, print_list, w). length (w_stdin w))")
     (auto dest: fgets_shorter split: if_splits)

declare delete_loop.simps [simp del]

text \<open>\<^verbatim>\<open>delete_files\<close>: the master is entered first, with \<^verbatim>\<open>keep = 1\<close>, then every file of
  the list with \<^verbatim>\<open>keep = 0\<close>.\<close>

definition delete_files :: "string \<Rightarrow> file_t \<Rightarrow> file_t list \<Rightarrow> world \<Rightarrow> world" where
  "delete_files digest master list w =
     delete_loop digest
       (\<lparr>file' = master, keep = 1\<rparr> # map (\<lambda>f. \<lparr>file' = f, keep = 0\<rparr>) list)
       True w"

subsection \<open>Listing\<close>

fun list_files_loop :: "64 word \<Rightarrow> char \<Rightarrow> file_t list \<Rightarrow> world \<Rightarrow> world" where
  "list_files_loop options fs [] w = w"
| "list_files_loop options fs (fp # list) w =
     list_files_loop options fs list
       (if options AND OPT_SHOWSIZE \<noteq> 0
        then printf ''%s (%ld)%c'' [Arg_s (name fp), Arg_d (st_size fp), Arg_c fs] w
        else printf ''%s%c'' [Arg_s (name fp), Arg_c fs] w)"

definition list_files :: "64 word \<Rightarrow> file_t \<Rightarrow> file_t list \<Rightarrow> world \<Rightarrow> world" where
  "list_files options master list w =
     (let fs = (if options AND OPT_SAMELINE \<noteq> 0 then CHR '' '' else CHR 0x0A);
          w1 = (if \<not> (options AND OPT_OMITFIRST \<noteq> 0) then
                  (if options AND OPT_SHOWSIZE \<noteq> 0
                   then printf ''%s (%ld)%c''
                          [Arg_s (name master), Arg_d (st_size master), Arg_c fs] w
                   else printf ''%s%c'' [Arg_s (name master), Arg_c fs] w)
                else w)
      in printf ''%c'' [Arg_c (CHR 0x0A)] (list_files_loop options fs list w1))"

section \<open>Phase three: resolving one digest bucket\<close>

record file_list_t =
  nfile :: int
  files :: "file_t list"

text \<open>
  The inner \<^verbatim>\<open>while\<close> loop of \<^verbatim>\<open>digest_foreach\<close>: every remaining record is compared
  with the master.  An equal one is linked at once in link mode, and appended to
  \<^verbatim>\<open>good_list\<close> otherwise; an unequal one is appended to \<^verbatim>\<open>bad_list\<close>.
\<close>

fun compare_round ::
  "64 word \<Rightarrow> file_t \<Rightarrow> file_t list \<Rightarrow> file_t list \<Rightarrow> file_t list \<Rightarrow> int \<Rightarrow> world
     \<Rightarrow> file_t list \<times> file_t list \<times> int \<times> world" where
  "compare_round options master [] good_list bad_list good_count w =
     (good_list, bad_list, good_count, w)"
| "compare_round options master (x # search_list) good_list bad_list good_count w =
     (case compare_files master x w of
        (status, w1) \<Rightarrow>
          if status \<noteq> 0 then
            (if options AND OPT_LINK \<noteq> 0
             then compare_round options master search_list good_list bad_list good_count
                    (link_pair master x (called (Call_link master x) w1))
             else compare_round options master search_list (good_list @ [x]) bad_list
                    (good_count + 1) w1)
          else compare_round options master search_list good_list (bad_list @ [x])
                 good_count w1)"

lemma compare_round_bad_length:
  "compare_round options master xs good bad n w = (good', bad', n', w')
     \<Longrightarrow> length bad' \<le> length bad + length xs"
proof (induction xs arbitrary: good bad n w)
  case Nil
  then show ?case by simp
next
  case (Cons x xs)
  obtain status w1 where c: "compare_files master x w = (status, w1)"
    by (cases "compare_files master x w")
  from Cons.prems c show ?case
    by (auto split: if_splits dest!: Cons.IH)
qed

text \<open>
  The outer \<^verbatim>\<open>while\<close> loop: the first record is the master of the round; when the round
  found duplicates, the group goes to \<^verbatim>\<open>delete_files\<close> or \<^verbatim>\<open>list_files\<close>; the next round
  runs on \<^verbatim>\<open>bad_list\<close>.
\<close>

function resolve_rounds :: "64 word \<Rightarrow> string \<Rightarrow> file_t list \<Rightarrow> world \<Rightarrow> world" where
  "resolve_rounds options key [] w = w"
| "resolve_rounds options key (master # search_list) w =
     (case compare_round options master search_list [] [] 0 w of
        (good_list, bad_list, good_count, w1) \<Rightarrow>
          resolve_rounds options key bad_list
            (if good_count > 0 then
               (if options AND OPT_DELETE \<noteq> 0
                then delete_files key master good_list
                       (called (Call_delete key master good_list) w1)
                else list_files options master good_list
                       (called (Call_list master good_list) w1))
             else w1))"
  by pat_completeness auto
termination
  by (relation "measure (\<lambda>(options, key, search_list, w). length search_list)")
     (auto dest: compare_round_bad_length [OF sym])

text \<open>The \<^verbatim>\<open>search_list\<close> the rounds start from: the bucket's files sorted, and filtered
  unless \<^verbatim>\<open>OPT_HARDLINKS\<close> is set.\<close>

definition search_list_of :: "64 word \<Rightarrow> file_t list \<Rightarrow> file_t list" where
  "search_list_of options fl =
     (let search_list = g_list_sort fl sort_compare
      in if \<not> (options AND OPT_HARDLINKS \<noteq> 0) then filter_links search_list
         else search_list)"

definition digest_foreach :: "64 word \<Rightarrow> string \<Rightarrow> file_list_t \<Rightarrow> world \<Rightarrow> world" where
  "digest_foreach options key file_list w =
     (if nfile file_list > 1
      then resolve_rounds options key (search_list_of options (files file_list)) w
      else w)"

section \<open>Phase one: the list of files\<close>













section \<open>Phase two: grouping by digest\<close>

text \<open>
  The checksum is GLib's \<^verbatim>\<open>GChecksum\<close>, taken as a parameter: a state, fed with
  \<^verbatim>\<open>g_checksum_update\<close>, read with \<^verbatim>\<open>g_checksum_get_string\<close> (\<^verbatim>\<open>NULL\<close> is \<open>None\<close>) and cleared
  with \<^verbatim>\<open>g_checksum_reset\<close>.
\<close>

record 'd gchecksum =
  g_checksum_new :: 'd
  g_checksum_update :: "'d \<Rightarrow> byte list \<Rightarrow> 'd"
  g_checksum_get_string :: "'d \<Rightarrow> string option"
  g_checksum_reset :: "'d \<Rightarrow> 'd"

text \<open>\<^verbatim>\<open>tree_foreach_t\<close> (its field \<^verbatim>\<open>digest\<close> is \<open>digest'\<close> here).  The hash table from digest
  to file list is an association list; \<^verbatim>\<open>g_hash_table_foreach\<close> visits it from its head
  (GLib leaves the order open).\<close>

record 'd tree_foreach_t =
  hash :: "(string \<times> file_list_t) list"
  digest' :: 'd

text \<open>The read loop of \<^verbatim>\<open>file_foreach\<close>: it runs while \<^verbatim>\<open>read\<close> returns more than 0.\<close>

function digest_read :: "'d gchecksum \<Rightarrow> fs_t \<Rightarrow> fd_t \<Rightarrow> 'd \<Rightarrow> 'd" where
  "digest_read cs fs fd d =
     (case sys_read fs fd 8192 of
        (Rd_err, fd') \<Rightarrow> d
      | (Rd buf, fd') \<Rightarrow>
          if length buf > 0 then digest_read cs fs fd' (g_checksum_update cs d buf) else d)"
  by pat_completeness auto
termination
  by (relation "measure (\<lambda>(cs, fs, fd, d). length (i_data (fs_inodes fs (fst fd))) - snd fd)")
     (auto simp: sys_read_def Let_def min_def split: if_splits)

declare digest_read.simps [simp del]

text \<open>The update of the list a digest is mapped to: the table holds a pointer to the
  \<^verbatim>\<open>file_list_t\<close>, which \<^verbatim>\<open>file_foreach\<close> changes in place.\<close>

fun hash_replace ::
  "(string \<times> file_list_t) list \<Rightarrow> string \<Rightarrow> file_list_t \<Rightarrow> (string \<times> file_list_t) list" where
  "hash_replace [] key v = []"
| "hash_replace ((k, v0) # h) key v =
     (if k = key then (k, v) # h else (k, v0) # hash_replace h key v)"

definition file_foreach ::
  "'d gchecksum \<Rightarrow> string \<Rightarrow> file_t \<Rightarrow> 'd tree_foreach_t \<Rightarrow> world
     \<Rightarrow> bool \<times> 'd tree_foreach_t \<times> world" where
  "file_foreach cs key val fdata w =
     (case sys_open (w_fs w) key of
        Some fd \<Rightarrow>
          (let d = digest_read cs (w_fs w) fd (digest' fdata)
           in case g_checksum_get_string cs d of
                Some digest_txt \<Rightarrow>
                  (case map_of (hash fdata) digest_txt of
                     Some file_list \<Rightarrow>
                       (False,
                        fdata\<lparr>hash := hash_replace (hash fdata) digest_txt
                                         (file_list\<lparr>nfile := nfile file_list + 1,
                                                     files := files file_list @ [val]\<rparr>),
                               digest' := g_checksum_reset cs d\<rparr>,
                        w)
                   | None \<Rightarrow>
                       (False,
                        fdata\<lparr>hash := hash fdata @ [(digest_txt, \<lparr>nfile = 1, files = [val]\<rparr>)],
                               digest' := g_checksum_reset cs d\<rparr>,
                        w))
              | None \<Rightarrow>
                  (False, fdata\<lparr>digest' := g_checksum_reset cs d\<rparr>,
                   g_warning (''digest calculation failed on file '%s'' @ [CHR 0x27])
                     [Arg_s key] w))
      | None \<Rightarrow>
          (False, fdata,
           g_warning ''unable to open file '%s' for reading - %m'' [Arg_s key] w))"



section \<open>The program\<close>






section \<open>What reading a file yields\<close>

text \<open>
  The results a reader gets from a descriptor with reads of \<^verbatim>\<open>CHUNK_SIZE\<close> bytes, up to
  and including the first read that fails or returns 0.  This is the yardstick the
  comparison is measured against: it is not a function of the program.
\<close>

function read_chunks :: "fs_t \<Rightarrow> fd_t \<Rightarrow> rd list" where
  "read_chunks fs fd =
     (case sys_read fs fd CHUNK_SIZE of
        (Rd_err, fd') \<Rightarrow> [Rd_err]
      | (Rd buf, fd') \<Rightarrow> if buf = [] then [Rd []] else Rd buf # read_chunks fs fd')"
  by pat_completeness auto
termination
  by (relation "measure (\<lambda>(fs, fd). length (i_data (fs_inodes fs (fst fd))) - snd fd)")
     (auto simp: sys_read_def Let_def min_def CHUNK_SIZE_def split: if_splits)

declare read_chunks.simps [simp del]

lemma memcmp_eq: "length xs = n \<Longrightarrow> length ys = n \<Longrightarrow> memcmp xs ys n = 0 \<longleftrightarrow> xs = ys"
proof (induction xs ys n rule: memcmp.induct)
  case (2 x xs y ys n)
  then show ?case
    by (auto simp: word_unat_eq_iff)
qed auto

lemma compare_loop_status:
  "fst (compare_loop name1 name2 fd1 fd2 w) =
     (if read_chunks (w_fs w) fd1 = read_chunks (w_fs w) fd2
         \<and> Rd_err \<notin> set (read_chunks (w_fs w) fd1) then 1 else 0)"
proof (induction name1 name2 fd1 fd2 w rule: compare_loop.induct)
  case (1 name1 name2 fd1 fd2 w)
  obtain r1 fd1' where r1: "sys_read (w_fs w) fd1 CHUNK_SIZE = (r1, fd1')"
    by (cases "sys_read (w_fs w) fd1 CHUNK_SIZE")
  obtain r2 fd2' where r2: "sys_read (w_fs w) fd2 CHUNK_SIZE = (r2, fd2')"
    by (cases "sys_read (w_fs w) fd2 CHUNK_SIZE")
  show ?case
  proof (cases r1)
    case Rd_err
    with r1 show ?thesis
      by (simp add: compare_loop.simps [of name1 name2 fd1 fd2 w]
            read_chunks.simps [of _ fd1])
  next
    case buf1: (Rd buf1)
    show ?thesis
    proof (cases r2)
      case Rd_err
      with r1 r2 buf1 show ?thesis
        by (simp add: compare_loop.simps [of name1 name2 fd1 fd2 w]
            read_chunks.simps [of _ fd1] read_chunks.simps [of _ fd2])
    next
      case buf2: (Rd buf2)
      show ?thesis
      proof (cases "length buf1 = length buf2 \<and> memcmp buf1 buf2 (length buf1) = 0")
        case False
        then have "buf1 \<noteq> buf2"
          by (auto simp: memcmp_eq)
        with False r1 r2 buf1 buf2 show ?thesis
          by (auto simp add: compare_loop.simps [of name1 name2 fd1 fd2 w]
            read_chunks.simps [of _ fd1] read_chunks.simps [of _ fd2])
      next
        case True
        then have e: "buf1 = buf2"
          by (auto simp: memcmp_eq)
        show ?thesis
        proof (cases "buf1 = []")
          case True
          with e r1 r2 buf1 buf2 show ?thesis
            by (simp add: compare_loop.simps [of name1 name2 fd1 fd2 w]
              read_chunks.simps [of _ fd1] read_chunks.simps [of _ fd2])
        next
          case False
          with e True have "compare_loop name1 name2 fd1 fd2 w = compare_loop name1 name2 fd1' fd2' w"
            using r1 r2 buf1 buf2
            by (simp add: compare_loop.simps [of name1 name2 fd1 fd2 w])
          moreover have "fst (compare_loop name1 name2 fd1' fd2' w) =
             (if read_chunks (w_fs w) fd1' = read_chunks (w_fs w) fd2'
                 \<and> Rd_err \<notin> set (read_chunks (w_fs w) fd1') then 1 else 0)"
            using "1.IH" [of r1 fd1' buf1 r2 fd2' buf2] r1 r2 buf1 buf2 False e True
            by simp
          ultimately show ?thesis
            using e False r1 r2 buf1 buf2
            by (simp add: read_chunks.simps [of _ fd1] read_chunks.simps [of _ fd2])
        qed
      qed
    qed
  qed
qed


text \<open>A path is readable when it opens and reading it to the end meets no error.\<close>

definition readable :: "fs_t \<Rightarrow> string \<Rightarrow> bool" where
  "readable fs nm =
     (case sys_open fs nm of
        None \<Rightarrow> False
      | Some fd \<Rightarrow> Rd_err \<notin> set (read_chunks fs fd))"

definition bytes_of :: "fs_t \<Rightarrow> string \<Rightarrow> byte list option" where
  "bytes_of fs nm = map_option (\<lambda>i. i_data (fs_inodes fs i)) (fs_names fs nm)"

fun rd_bytes :: "rd \<Rightarrow> byte list" where
  "rd_bytes Rd_err = []"
| "rd_bytes (Rd buf) = buf"

lemma compare_loop_frame:
  "w_fs (snd (compare_loop name1 name2 fd1 fd2 w)) = w_fs w
   \<and> w_stdin (snd (compare_loop name1 name2 fd1 fd2 w)) = w_stdin w
   \<and> w_stdout (snd (compare_loop name1 name2 fd1 fd2 w)) = w_stdout w
   \<and> w_calls (snd (compare_loop name1 name2 fd1 fd2 w)) = w_calls w"
proof (induction name1 name2 fd1 fd2 w rule: compare_loop.induct)
  case (1 name1 name2 fd1 fd2 w)
  obtain r1 fd1' where r1: "sys_read (w_fs w) fd1 CHUNK_SIZE = (r1, fd1')"
    by (cases "sys_read (w_fs w) fd1 CHUNK_SIZE")
  obtain r2 fd2' where r2: "sys_read (w_fs w) fd2 CHUNK_SIZE = (r2, fd2')"
    by (cases "sys_read (w_fs w) fd2 CHUNK_SIZE")
  show ?case
  proof (cases r1)
    case Rd_err
    with r1 show ?thesis
      by (simp add: compare_loop.simps [of name1 name2 fd1 fd2 w] g_critical_def g_log_def)
  next
    case buf1: (Rd buf1)
    show ?thesis
    proof (cases r2)
      case Rd_err
      with r1 r2 buf1 show ?thesis
        by (simp add: compare_loop.simps [of name1 name2 fd1 fd2 w] g_critical_def g_log_def)
    next
      case buf2: (Rd buf2)
      show ?thesis
      proof (cases "\<not> (length buf1 = 0 \<and> length buf2 = 0)
                    \<and> length buf1 = length buf2 \<and> memcmp buf1 buf2 (length buf1) = 0")
        case True
        then have a: "\<not> (length buf1 = 0 \<and> length buf2 = 0)"
          and b: "length buf1 = length buf2 \<and> memcmp buf1 buf2 (length buf1) = 0"
          by blast+
        from "1.IH" [OF r1 [symmetric] buf1 r2 [symmetric] buf2 a b]
        have "w_fs (snd (compare_loop name1 name2 fd1' fd2' w)) = w_fs w
           \<and> w_stdin (snd (compare_loop name1 name2 fd1' fd2' w)) = w_stdin w
           \<and> w_stdout (snd (compare_loop name1 name2 fd1' fd2' w)) = w_stdout w
           \<and> w_calls (snd (compare_loop name1 name2 fd1' fd2' w)) = w_calls w"
          by simp
        moreover from True r1 r2 buf1 buf2
        have "compare_loop name1 name2 fd1 fd2 w = compare_loop name1 name2 fd1' fd2' w"
          by (cases "buf1 = []") (auto simp add: compare_loop.simps [of name1 name2 fd1 fd2 w])
        ultimately show ?thesis
          by simp
      next
        case False
        with r1 r2 buf1 buf2 show ?thesis
          by (auto simp add: compare_loop.simps [of name1 name2 fd1 fd2 w])
      qed
    qed
  qed
qed

lemma take_drop_length_take: "take n ys @ drop (length (take n ys)) ys = ys"
  by (cases "n \<le> length ys") (simp_all add: min_def)

lemma read_chunks_concat:
  "Rd_err \<notin> set (read_chunks fs fd)
     \<Longrightarrow> concat (map rd_bytes (read_chunks fs fd)) = drop (snd fd) (i_data (fs_inodes fs (fst fd)))"
proof (induction fs fd rule: read_chunks.induct)
  case (1 fs fd)
  obtain r fd' where r: "sys_read fs fd CHUNK_SIZE = (r, fd')"
    by (cases "sys_read fs fd CHUNK_SIZE")
  show ?case
  proof (cases r)
    case Rd_err
    with r "1.prems" show ?thesis
      by (simp add: read_chunks.simps [of fs fd])
  next
    case (Rd buf)
    from r Rd have buf: "buf = take CHUNK_SIZE (drop (snd fd) (i_data (fs_inodes fs (fst fd))))"
      and fd': "fd' = (fst fd, snd fd + length buf)"
      by (auto simp: sys_read_def Let_def split: if_splits)
    show ?thesis
    proof (cases "buf = []")
      case True
      with buf have "drop (snd fd) (i_data (fs_inodes fs (fst fd))) = []"
        by (simp add: CHUNK_SIZE_def)
      with True r Rd show ?thesis
        by (simp add: read_chunks.simps [of fs fd])
    next
      case False
      with r Rd "1.prems" have "Rd_err \<notin> set (read_chunks fs fd')"
        by (simp add: read_chunks.simps [of fs fd])
      with "1.IH" [OF r [symmetric] Rd False]
      have "concat (map rd_bytes (read_chunks fs fd')) = drop (snd fd') (i_data (fs_inodes fs (fst fd')))"
        by simp
      then have "concat (map rd_bytes (read_chunks fs fd')) =
                   drop (length buf) (drop (snd fd) (i_data (fs_inodes fs (fst fd))))"
        using fd' by (simp add: add.commute)
      moreover have "concat (map rd_bytes (read_chunks fs fd))
                       = buf @ concat (map rd_bytes (read_chunks fs fd'))"
        using r Rd False by (simp add: read_chunks.simps [of fs fd])
      ultimately show ?thesis
        using take_drop_length_take [of CHUNK_SIZE "drop (snd fd) (i_data (fs_inodes fs (fst fd)))"]
        by (simp only: buf)
    qed
  qed
qed

lemma read_chunks_same_inode:
  "fs_inodes fs (fst fd) = fs_inodes fs j \<Longrightarrow> read_chunks fs fd = read_chunks fs (j, snd fd)"
proof (induction fs fd rule: read_chunks.induct)
  case (1 fs fd)
  obtain r fd' where r: "sys_read fs fd CHUNK_SIZE = (r, fd')"
    by (cases "sys_read fs fd CHUNK_SIZE")
  show ?case
  proof (cases r)
    case Rd_err
    with r 1 show ?thesis
      by (auto simp: read_chunks.simps [of fs fd] read_chunks.simps [of fs "(j, snd fd)"]
            sys_read_def Let_def split: if_splits)
  next
    case (Rd buf)
    with r have fd': "fd' = (fst fd, snd fd + length buf)"
      by (auto simp: sys_read_def Let_def split: if_splits)
    from r Rd "1.prems"
    have r': "sys_read fs (j, snd fd) CHUNK_SIZE = (Rd buf, (j, snd fd + length buf))"
      by (auto simp: sys_read_def Let_def split: if_splits)
    show ?thesis
    proof (cases "buf = []")
      case True
      with r r' Rd show ?thesis
        by (simp add: read_chunks.simps [of fs fd] read_chunks.simps [of fs "(j, snd fd)"])
    next
      case False
      from "1.IH" [OF r [symmetric] Rd False] "1.prems" fd'
      have "read_chunks fs fd' = read_chunks fs (j, snd fd + length buf)"
        by simp
      with r r' Rd False show ?thesis
        by (simp add: read_chunks.simps [of fs fd] read_chunks.simps [of fs "(j, snd fd)"])
    qed
  qed
qed


lemma compare_files_status:
  "fst (compare_files file1 file2 w) =
     (case sys_open (w_fs w) (name file1) of
        None \<Rightarrow> 0
      | Some fd1 \<Rightarrow>
          (case sys_open (w_fs w) (name file2) of
             None \<Rightarrow> 0
           | Some fd2 \<Rightarrow>
               if read_chunks (w_fs w) fd1 = read_chunks (w_fs w) fd2
                  \<and> Rd_err \<notin> set (read_chunks (w_fs w) fd1) then 1 else 0))"
  by (simp add: compare_files_def compare_loop_status split: option.splits)

lemma compare_files_frame:
  "w_fs (snd (compare_files file1 file2 w)) = w_fs w
   \<and> w_stdin (snd (compare_files file1 file2 w)) = w_stdin w
   \<and> w_stdout (snd (compare_files file1 file2 w)) = w_stdout w
   \<and> w_calls (snd (compare_files file1 file2 w)) = w_calls w"
  by (simp add: compare_files_def compare_loop_frame g_critical_def g_log_def
        split: option.splits)

section \<open>A small world for concrete runs\<close>

text \<open>
  Four paths: \<^verbatim>\<open>a\<close> and \<^verbatim>\<open>b\<close> hold the same three bytes, \<^verbatim>\<open>c\<close> differs in the last byte,
  and the first read of \<^verbatim>\<open>d\<close> fails.
\<close>

definition example_fs :: fs_t where
  "example_fs =
     \<lparr>fs_names = [''a'' \<mapsto> 11, ''b'' \<mapsto> 12, ''c'' \<mapsto> 13, ''d'' \<mapsto> 14],
      fs_inodes = (\<lambda>i. \<lparr>i_data = (if i = 13 then [1, 2, 4] else [1, 2, 3]),
                         i_bad = (if i = 14 then Some 0 else None), i_perm = True\<rparr>),
      fs_locked = (\<lambda>nm. False),
      fs_lstat = (\<lambda>nm. None), fs_stat = (\<lambda>nm. None), fs_readdir = (\<lambda>nm. None)\<rparr>"

definition example_world :: "string \<Rightarrow> world" where
  "example_world input =
     \<lparr>w_fs = example_fs, w_stdin = input, w_stdout = [], w_log = [], w_calls = []\<rparr>"

definition example_file :: "string \<Rightarrow> file_t" where
  "example_file nm =
     \<lparr>name = nm, st_size = 3, st_nlink = 1, st_mode = 0x81A4, st_dev = 1, st_ino = 7\<rparr>"

section \<open>The byte comparison\<close>

text \<open>
  Claim C4.  \<^verbatim>\<open>compare_files\<close> returns 1 exactly when both files open and the reads of
  the two files, taken in lockstep, give the same chunks up to a read of 0 bytes on
  both, with no failed read; every other outcome (a size or byte mismatch in a chunk,
  a failed read) is 0.  When the first file does not open, or the first opens and the
  second does not, the result is 0 and the one effect is a message of level critical
  naming the file.
\<close>

theorem compare_files_lockstep:
  "(fst (compare_files file1 file2 w) = 1 \<longleftrightarrow>
      (\<exists>fd1 fd2. sys_open (w_fs w) (name file1) = Some fd1
         \<and> sys_open (w_fs w) (name file2) = Some fd2
         \<and> read_chunks (w_fs w) fd1 = read_chunks (w_fs w) fd2
         \<and> Rd_err \<notin> set (read_chunks (w_fs w) fd1)))
   \<and> (fst (compare_files file1 file2 w) \<noteq> 1 \<longrightarrow> fst (compare_files file1 file2 w) = 0)
   \<and> (sys_open (w_fs w) (name file1) = None \<longrightarrow>
        compare_files file1 file2 w =
          (0, g_critical ''unable to open file '%s' for reading - %m'' [Arg_s (name file1)] w))
   \<and> (sys_open (w_fs w) (name file1) \<noteq> None \<and> sys_open (w_fs w) (name file2) = None \<longrightarrow>
        compare_files file1 file2 w =
          (0, g_critical ''unable to open file '%s' for reading - %m'' [Arg_s (name file2)] w))"
proof -
  have "fst (compare_files file1 file2 w) = 1 \<longleftrightarrow>
      (\<exists>fd1 fd2. sys_open (w_fs w) (name file1) = Some fd1
         \<and> sys_open (w_fs w) (name file2) = Some fd2
         \<and> read_chunks (w_fs w) fd1 = read_chunks (w_fs w) fd2
         \<and> Rd_err \<notin> set (read_chunks (w_fs w) fd1))"
    by (auto simp add: compare_files_status split: option.splits)
  moreover have "fst (compare_files file1 file2 w) \<noteq> 1 \<longrightarrow> fst (compare_files file1 file2 w) = 0"
    by (simp add: compare_files_status split: option.splits)
  moreover have "sys_open (w_fs w) (name file1) = None \<longrightarrow>
        compare_files file1 file2 w =
          (0, g_critical ''unable to open file '%s' for reading - %m'' [Arg_s (name file1)] w)"
    by (simp add: compare_files_def)
  moreover have "sys_open (w_fs w) (name file1) \<noteq> None \<and> sys_open (w_fs w) (name file2) = None \<longrightarrow>
        compare_files file1 file2 w =
          (0, g_critical ''unable to open file '%s' for reading - %m'' [Arg_s (name file2)] w)"
    by (auto simp add: compare_files_def)
  ultimately show ?thesis
    by blast
qed

lemma example_chunks:
  "read_chunks example_fs (11, 0) = [Rd [1, 2, 3], Rd []]"
  "read_chunks example_fs (12, 0) = [Rd [1, 2, 3], Rd []]"
  "read_chunks example_fs (13, 0) = [Rd [1, 2, 4], Rd []]"
  "read_chunks example_fs (14, 0) = [Rd_err]"
  by (simp_all add: read_chunks.simps sys_read_def example_fs_def CHUNK_SIZE_def)

theorem compare_files_lockstep_witness:
  "fst (compare_files (example_file ''a'') (example_file ''b'') (example_world [])) = 1
   \<and> fst (compare_files (example_file ''a'') (example_file ''c'') (example_world [])) = 0
   \<and> compare_files (example_file ''zz'') (example_file ''a'') (example_world []) =
       (0, g_critical ''unable to open file '%s' for reading - %m'' [Arg_s ''zz'']
             (example_world []))
   \<and> compare_files (example_file ''a'') (example_file ''zz'') (example_world []) =
       (0, g_critical ''unable to open file '%s' for reading - %m'' [Arg_s ''zz'']
             (example_world []))"
  using compare_files_lockstep [of "example_file ''a''" "example_file ''b''" "example_world []"]
    compare_files_lockstep [of "example_file ''a''" "example_file ''c''" "example_world []"]
    compare_files_lockstep [of "example_file ''zz''" "example_file ''a''" "example_world []"]
    compare_files_lockstep [of "example_file ''a''" "example_file ''zz''" "example_world []"]
  by (simp add: example_chunks sys_open_def example_world_def example_file_def
        example_fs_def [THEN arg_cong, of fs_names] example_fs_def [THEN arg_cong, of fs_inodes])

text \<open>
  Claim C7.  The status of \<^verbatim>\<open>compare_files\<close> is symmetric in its two files, whatever
  the files are, and comparing a readable file with itself gives 1.
\<close>

theorem compare_files_symmetric_reflexive:
  "fst (compare_files a b w) = fst (compare_files b a w)
   \<and> (readable (w_fs w) (name a) \<longrightarrow> fst (compare_files a a w) = 1)"
proof
  show "fst (compare_files a b w) = fst (compare_files b a w)"
    by (auto simp add: compare_files_status split: option.splits)
  show "readable (w_fs w) (name a) \<longrightarrow> fst (compare_files a a w) = 1"
    by (auto simp add: compare_files_status readable_def split: option.splits)
qed


theorem compare_files_symmetric_reflexive_witness:
  "readable (w_fs (example_world [])) (name (example_file ''a''))
   \<and> fst (compare_files (example_file ''a'') (example_file ''a'') (example_world [])) = 1
   \<and> fst (compare_files (example_file ''a'') (example_file ''c'') (example_world []))
       = fst (compare_files (example_file ''c'') (example_file ''a'') (example_world []))"
proof -
  have r: "readable (w_fs (example_world [])) (name (example_file ''a''))"
    by (simp add: readable_def sys_open_def example_world_def example_file_def example_chunks
          example_fs_def [THEN arg_cong, of fs_names] example_fs_def [THEN arg_cong, of fs_inodes])
  with compare_files_symmetric_reflexive
         [of "example_file ''a''" "example_file ''c''" "example_world []"]
  show ?thesis
    by simp
qed

section \<open>The hard-link filter\<close>

text \<open>The identity of a file for hard-link detection: device and inode number.\<close>

definition identity :: "file_t \<Rightarrow> nat \<times> nat" where
  "identity f = (st_dev f, st_ino f)"

lemma links_found_iff: "links_found new_list fp1 \<longleftrightarrow> identity fp1 \<in> identity ` set new_list"
  by (induction new_list) (auto simp: identity_def)

text \<open>The filter seen as one pass that remembers the identities met so far (a device of
  the proofs; \<^verbatim>\<open>filter_links\<close> itself searches \<^verbatim>\<open>new_list\<close>).\<close>

fun keep_unseen :: "(nat \<times> nat) set \<Rightarrow> file_t list \<Rightarrow> file_t list" where
  "keep_unseen S [] = []"
| "keep_unseen S (x # xs) =
     (if identity x \<in> S then keep_unseen S xs
      else x # keep_unseen (insert (identity x) S) xs)"

lemma filter_links_loop_keep_unseen:
  "filter_links_loop rest new_list = new_list @ keep_unseen (identity ` set new_list) rest"
  by (induction rest arbitrary: new_list) (simp_all add: links_found_iff)

lemma filter_links_keep_unseen: "filter_links xs = keep_unseen {} xs"
  by (cases xs) (simp_all add: filter_links_def filter_links_loop_keep_unseen)

lemma keep_unseen_identities:
  "identity ` set (keep_unseen S xs) = identity ` set xs - S"
  by (induction xs arbitrary: S) auto

lemma keep_unseen_distinct: "distinct (map identity (keep_unseen S xs))"
proof (induction xs arbitrary: S)
  case Nil
  then show ?case by simp
next
  case (Cons x xs)
  have "identity x \<notin> identity ` set (keep_unseen (insert (identity x) S) xs)"
    by (simp add: keep_unseen_identities)
  with Cons show ?case
    by simp
qed

lemma keep_unseen_subseq: "subseq (keep_unseen S xs) xs"
  by (induction xs arbitrary: S) auto

lemma keep_unseen_first:
  "y \<in> set (keep_unseen S xs)
     \<Longrightarrow> \<exists>pre post. xs = pre @ y # post \<and> identity y \<notin> identity ` set pre"
proof (induction xs arbitrary: S)
  case Nil
  then show ?case by simp
next
  case (Cons x xs)
  show ?case
  proof (cases "y = x")
    case True
    then have "x # xs = [] @ y # xs \<and> identity y \<notin> identity ` set []"
      by simp
    then show ?thesis by blast
  next
    case False
    show ?thesis
    proof (cases "identity x \<in> S")
      case True
      with Cons.prems have "y \<in> set (keep_unseen S xs)"
        by simp
      moreover from this keep_unseen_identities [of S xs] have "identity y \<notin> S"
        by blast
      ultimately obtain pre post where "xs = pre @ y # post" "identity y \<notin> identity ` set pre"
        using Cons.IH by blast
      with True \<open>identity y \<notin> S\<close>
      have "x # xs = (x # pre) @ y # post \<and> identity y \<notin> identity ` set (x # pre)"
        by auto
      then show ?thesis by blast
    next
      case notin: False
      with Cons.prems False have y: "y \<in> set (keep_unseen (insert (identity x) S) xs)"
        by simp
      with keep_unseen_identities [of "insert (identity x) S" xs]
      have "identity y \<noteq> identity x"
        by blast
      moreover from y obtain pre post
        where "xs = pre @ y # post" "identity y \<notin> identity ` set pre"
        using Cons.IH by blast
      ultimately
      have "x # xs = (x # pre) @ y # post \<and> identity y \<notin> identity ` set (x # pre)"
        by auto
      then show ?thesis by blast
    qed
  qed
qed

text \<open>
  Claim C5.  The filtered list has no two records with the same device and inode, is a
  subsequence of the list it was given (so the sort order is kept), keeps every
  identity, and each record it keeps is the first one of its identity in the given
  list.  \<^verbatim>\<open>digest_foreach\<close> applies the filter to the sorted list when \<^verbatim>\<open>OPT_HARDLINKS\<close> is
  not set, and uses the sorted list as it is when the flag is set.
\<close>

theorem filter_links_first_seen:
  "distinct (map identity (filter_links xs))
   \<and> subseq (filter_links xs) xs
   \<and> identity ` set (filter_links xs) = identity ` set xs
   \<and> (\<forall>y \<in> set (filter_links xs).
         \<exists>pre post. xs = pre @ y # post \<and> identity y \<notin> identity ` set pre)
   \<and> (options AND OPT_HARDLINKS = 0 \<longrightarrow>
        search_list_of options xs = filter_links (g_list_sort xs sort_compare))
   \<and> (options AND OPT_HARDLINKS \<noteq> 0 \<longrightarrow>
        search_list_of options xs = g_list_sort xs sort_compare)"
proof -
  have "\<forall>y \<in> set (filter_links xs).
         \<exists>pre post. xs = pre @ y # post \<and> identity y \<notin> identity ` set pre"
    using keep_unseen_first [of _ "{}" xs] by (simp add: filter_links_keep_unseen)
  moreover have "identity ` set (filter_links xs) = identity ` set xs"
    by (simp add: filter_links_keep_unseen keep_unseen_identities)
  moreover have "distinct (map identity (filter_links xs))" "subseq (filter_links xs) xs"
    by (simp_all add: filter_links_keep_unseen keep_unseen_distinct keep_unseen_subseq)
  moreover have "options AND OPT_HARDLINKS = 0 \<longrightarrow>
        search_list_of options xs = filter_links (g_list_sort xs sort_compare)"
    "options AND OPT_HARDLINKS \<noteq> 0 \<longrightarrow>
        search_list_of options xs = g_list_sort xs sort_compare"
    by (simp_all add: search_list_of_def)
  ultimately show ?thesis
    by blast
qed


section \<open>The order of a bucket\<close>

text \<open>The order the specification asks for: more links first; with equal link counts,
  the smaller path (bytes compared as unsigned) first.\<close>

definition links_desc_path_asc :: "file_t \<Rightarrow> file_t \<Rightarrow> bool" where
  "links_desc_path_asc a b \<longleftrightarrow>
     st_nlink b < st_nlink a \<or> (st_nlink a = st_nlink b \<and> lexordp_eq (name a) (name b))"

lemma to_gint_id: "- (2 ^ 31) \<le> v \<Longrightarrow> v < 2 ^ 31 \<Longrightarrow> to_gint v = v"
  by (simp add: to_gint_def)

lemma strcmp_le_iff: "strcmp a b \<le> 0 \<longleftrightarrow> lexordp_eq a b"
  by (induction a b rule: strcmp.induct) (auto simp: less_char_def)

lemma sort_compare_le_iff:
  assumes "st_nlink a < 2 ^ 31" "st_nlink b < 2 ^ 31"
  shows "sort_compare a b \<le> 0 \<longleftrightarrow> links_desc_path_asc a b"
proof -
  from assms have "to_gint (int (st_nlink b) - int (st_nlink a)) = int (st_nlink b) - int (st_nlink a)"
    by (intro to_gint_id) simp_all
  then show ?thesis
    by (auto simp: sort_compare_def Let_def links_desc_path_asc_def strcmp_le_iff)
qed

lemma links_desc_path_asc_linear: "links_desc_path_asc a b \<or> links_desc_path_asc b a"
  using lexordp_eq_linear [of "name a" "name b"] by (auto simp: links_desc_path_asc_def)

lemma links_desc_path_asc_trans:
  "links_desc_path_asc a b \<Longrightarrow> links_desc_path_asc b c \<Longrightarrow> links_desc_path_asc a c"
  by (auto simp: links_desc_path_asc_def intro: lexordp_eq_trans)

lemma set_g_list_sort_merge: "set (g_list_sort_merge l1 l2 cmp) = set l1 \<union> set l2"
  by (induction l1 l2 cmp rule: g_list_sort_merge.induct) auto

lemma mset_g_list_sort_merge: "mset (g_list_sort_merge l1 l2 cmp) = mset l1 + mset l2"
  by (induction l1 l2 cmp rule: g_list_sort_merge.induct) auto

lemma mset_g_list_sort: "mset (g_list_sort xs cmp) = mset xs"
proof (induction xs cmp rule: g_list_sort.induct)
  case (1 xs cmp)
  show ?case
  proof (cases "length xs \<le> 1")
    case True
    then show ?thesis
      by (simp add: g_list_sort.simps [of xs])
  next
    case False
    with 1 have "mset (g_list_sort xs cmp)
        = mset (take (length xs div 2) xs) + mset (drop (length xs div 2) xs)"
      by (simp add: g_list_sort.simps [of xs] mset_g_list_sort_merge)
    also have "\<dots> = mset (take (length xs div 2) xs @ drop (length xs div 2) xs)"
      by (simp del: append_take_drop_id)
    finally show ?thesis
      by simp
  qed
qed

lemma sorted_g_list_sort_merge:
  assumes "\<forall>x \<in> set l1 \<union> set l2. st_nlink x < 2 ^ 31"
    and "sorted_wrt links_desc_path_asc l1" "sorted_wrt links_desc_path_asc l2"
  shows "sorted_wrt links_desc_path_asc (g_list_sort_merge l1 l2 sort_compare)"
  using assms
proof (induction l1 l2 sort_compare rule: g_list_sort_merge.induct)
  case (3 x l1 y l2)
  show ?case
  proof (cases "sort_compare x y \<le> 0")
    case True
    with 3 have xy: "links_desc_path_asc x y"
      by (simp add: sort_compare_le_iff)
    with "3.prems" have "\<forall>z \<in> set (y # l2). links_desc_path_asc x z"
      by (auto intro: links_desc_path_asc_trans)
    with True 3 show ?thesis
      by (auto simp: set_g_list_sort_merge)
  next
    case False
    with 3 have "\<not> links_desc_path_asc x y"
      by (simp add: sort_compare_le_iff)
    with links_desc_path_asc_linear [of x y] have yx: "links_desc_path_asc y x"
      by blast
    with "3.prems" have "\<forall>z \<in> set (x # l1). links_desc_path_asc y z"
      by (auto intro: links_desc_path_asc_trans)
    with False 3 show ?thesis
      by (auto simp: set_g_list_sort_merge)
  qed
qed simp_all

lemma sorted_g_list_sort:
  "\<forall>x \<in> set xs. st_nlink x < 2 ^ 31
     \<Longrightarrow> sorted_wrt links_desc_path_asc (g_list_sort xs sort_compare)"
proof (induction xs sort_compare rule: g_list_sort.induct)
  case (1 xs)
  show ?case
  proof (cases "length xs \<le> 1")
    case True
    then have "g_list_sort xs sort_compare = xs"
      by (simp add: g_list_sort.simps [of xs])
    with True show ?thesis
      by (cases xs) simp_all
  next
    case False
    let ?l = "take (length xs div 2) xs" and ?r = "drop (length xs div 2) xs"
    from "1.prems" have b: "\<forall>x \<in> set ?l. st_nlink x < 2 ^ 31" "\<forall>x \<in> set ?r. st_nlink x < 2 ^ 31"
      by (auto dest: in_set_takeD in_set_dropD)
    with False "1.hyps" have "sorted_wrt links_desc_path_asc (g_list_sort ?l sort_compare)"
      "sorted_wrt links_desc_path_asc (g_list_sort ?r sort_compare)"
      by simp_all
    moreover from b have "\<forall>x \<in> set (g_list_sort ?l sort_compare) \<union> set (g_list_sort ?r sort_compare).
        st_nlink x < 2 ^ 31"
      using mset_g_list_sort [of ?l sort_compare, THEN arg_cong, of set_mset]
        mset_g_list_sort [of ?r sort_compare, THEN arg_cong, of set_mset]
      by auto
    ultimately show ?thesis
      using False
      by (simp add: g_list_sort.simps [of xs] sorted_g_list_sort_merge)
  qed
qed


lemma set_keep_unseen: "set (keep_unseen S xs) \<subseteq> set xs"
  by (induction xs arbitrary: S) auto

lemma sorted_wrt_keep_unseen: "sorted_wrt P xs \<Longrightarrow> sorted_wrt P (keep_unseen S xs)"
  using set_keep_unseen by (induction xs arbitrary: S) fastforce+

text \<open>
  Claim C6.  For link counts that fit the \<^verbatim>\<open>gint\<close> difference computed by
  \<^verbatim>\<open>sort_compare\<close> (below \<open>2 ^ 31\<close>), \<^verbatim>\<open>g_list_sort\<close> with \<^verbatim>\<open>sort_compare\<close> returns the
  bucket's records, all of them, in descending order of link count with ties in
  ascending order of path; the list the rounds start from is in that order in both
  modes of the hard-link filter.
\<close>

theorem bucket_sorted_by_links_then_path:
  assumes "\<forall>f \<in> set fl. st_nlink f < 2 ^ 31"
  shows "sorted_wrt links_desc_path_asc (g_list_sort fl sort_compare)
         \<and> mset (g_list_sort fl sort_compare) = mset fl
         \<and> sorted_wrt links_desc_path_asc (search_list_of options fl)"
proof -
  from assms have s: "sorted_wrt links_desc_path_asc (g_list_sort fl sort_compare)"
    by (rule sorted_g_list_sort)
  moreover from s
  have "sorted_wrt links_desc_path_asc (filter_links (g_list_sort fl sort_compare))"
    by (simp add: filter_links_keep_unseen sorted_wrt_keep_unseen)
  ultimately show ?thesis
    by (simp add: mset_g_list_sort search_list_of_def Let_def)
qed

definition example_links :: "string \<Rightarrow> nat \<Rightarrow> nat \<Rightarrow> file_t" where
  "example_links nm n ino = (example_file nm)\<lparr>st_nlink := n, st_ino := ino\<rparr>"

lemma example_sort:
  "g_list_sort [example_links ''b'' 2 8, example_links ''c'' 3 9, example_links ''a'' 2 8]
     sort_compare
   = [example_links ''c'' 3 9, example_links ''a'' 2 8, example_links ''b'' 2 8]"
  by (simp add: g_list_sort.simps sort_compare_def to_gint_def example_links_def
        example_file_def)

theorem bucket_sorted_by_links_then_path_witness:
  "st_nlink (example_links ''b'' 2 8) < 2 ^ 31 \<and> st_nlink (example_links ''c'' 3 9) < 2 ^ 31
   \<and> st_nlink (example_links ''a'' 2 8) < 2 ^ 31
   \<and> g_list_sort [example_links ''b'' 2 8, example_links ''c'' 3 9, example_links ''a'' 2 8]
         sort_compare
       = [example_links ''c'' 3 9, example_links ''a'' 2 8, example_links ''b'' 2 8]
   \<and> sorted_wrt links_desc_path_asc
        [example_links ''c'' 3 9, example_links ''a'' 2 8, example_links ''b'' 2 8]"
proof -
  have b: "\<forall>f \<in> set [example_links ''b'' 2 8, example_links ''c'' 3 9, example_links ''a'' 2 8].
      st_nlink f < 2 ^ 31"
    by (simp add: example_links_def)
  from bucket_sorted_by_links_then_path [OF b, of 0] b show ?thesis
    by (simp add: example_sort)
qed

theorem filter_links_first_seen_witness:
  "filter_links [example_links ''c'' 3 9, example_links ''a'' 2 8, example_links ''b'' 2 8]
     = [example_links ''c'' 3 9, example_links ''a'' 2 8]
   \<and> (\<exists>pre post.
         [example_links ''c'' 3 9, example_links ''a'' 2 8, example_links ''b'' 2 8]
           = pre @ example_links ''a'' 2 8 # post
         \<and> identity (example_links ''a'' 2 8) \<notin> identity ` set pre)
   \<and> search_list_of 0 [example_links ''c'' 3 9]
       = filter_links (g_list_sort [example_links ''c'' 3 9] sort_compare)
   \<and> search_list_of OPT_HARDLINKS [example_links ''c'' 3 9]
       = g_list_sort [example_links ''c'' 3 9] sort_compare"
proof -
  have f: "filter_links [example_links ''c'' 3 9, example_links ''a'' 2 8, example_links ''b'' 2 8]
     = [example_links ''c'' 3 9, example_links ''a'' 2 8]"
    by (simp add: filter_links_def example_links_def example_file_def)
  have o: "(0 :: 64 word) AND OPT_HARDLINKS = 0" "OPT_HARDLINKS AND OPT_HARDLINKS \<noteq> 0"
    by (simp_all add: OPT_HARDLINKS_def)
  from filter_links_first_seen
         [of "[example_links ''c'' 3 9, example_links ''a'' 2 8, example_links ''b'' 2 8]" 0]
    filter_links_first_seen [of "[example_links ''c'' 3 9]" 0]
    filter_links_first_seen [of "[example_links ''c'' 3 9]" OPT_HARDLINKS] f o
  show ?thesis
    by simp
qed

section \<open>The interactive session\<close>

subsection \<open>What the output functions leave alone\<close>

lemma w_fs_printf [simp]: "w_fs (printf fmt args w) = w_fs w"
  by (simp add: printf_def)

lemma w_fs_fputs [simp]: "w_fs (fputs s w) = w_fs w"
  by (simp add: fputs_def)

lemma w_fs_g_log [simp]: "w_fs (g_log lvl fmt args w) = w_fs w"
  by (simp add: g_log_def)

lemma w_fs_print_entries [simp]: "w_fs (print_entries i dl w) = w_fs w"
  by (induction i dl w rule: print_entries.induct) simp_all

lemma w_fs_print_disposition [simp]: "w_fs (print_disposition d dl w) = w_fs w"
  by (simp add: print_disposition_def)

lemma w_calls_printf [simp]: "w_calls (printf fmt args w) = w_calls w"
  by (simp add: printf_def)

lemma w_calls_fputs [simp]: "w_calls (fputs s w) = w_calls w"
  by (simp add: fputs_def)

lemma w_calls_g_log [simp]: "w_calls (g_log lvl fmt args w) = w_calls w"
  by (simp add: g_log_def)

lemma w_calls_print_entries [simp]: "w_calls (print_entries i dl w) = w_calls w"
  by (induction i dl w rule: print_entries.induct) simp_all

lemma w_calls_print_disposition [simp]: "w_calls (print_disposition d dl w) = w_calls w"
  by (simp add: print_disposition_def)

subsection \<open>The go-ahead test\<close>

lemma of_char_neither_less:
  "\<not> (of_char x :: nat) < of_char y \<and> \<not> (of_char y :: nat) < of_char x \<longleftrightarrow> x = y"
proof -
  have "(of_char x :: nat) = of_char y \<longleftrightarrow> x = y"
    by (rule of_char_eq_iff)
  then show ?thesis
    by linarith
qed

lemma strncmp_eq_0_iff: "strncmp xs ys n = 0 \<longleftrightarrow> take n xs = take n ys"
proof (induction xs ys n rule: strncmp.induct)
  case (5 x xs y ys n)
  show ?case
  proof (cases "x = y")
    case True
    with 5 show ?thesis by simp
  next
    case False
    with of_char_neither_less [of x y]
    have "(of_char x :: nat) < of_char y \<or> (of_char y :: nat) < of_char x"
      by blast
    with False show ?thesis by auto
  qed
qed simp_all

lemma strncmp_go: "strncmp buf ''go'' 2 = 0 \<longleftrightarrow> take 2 buf = ''go''"
  by (simp add: strncmp_eq_0_iff)

subsection \<open>The effect of the deletions\<close>

lemma unlink_marked_frame:
  "fs_inodes (w_fs (unlink_marked dl w)) = fs_inodes (w_fs w)
   \<and> fs_locked (w_fs (unlink_marked dl w)) = fs_locked (w_fs w)
   \<and> w_stdin (unlink_marked dl w) = w_stdin w
   \<and> w_calls (unlink_marked dl w) = w_calls w"
  by (induction dl arbitrary: w)
     (auto simp: sys_unlink_def printf_def g_warning_def g_log_def split: option.splits if_splits)

lemma unlink_marked_names:
  "fs_names (w_fs (unlink_marked dl w)) nm =
     (if (\<exists>e \<in> set dl. keep e = 0 \<and> name (file' e) = nm) \<and> \<not> fs_locked (w_fs w) nm
      then None else fs_names (w_fs w) nm)"
proof (induction dl arbitrary: w)
  case Nil
  then show ?case by simp
next
  case (Cons elem dl)
  let ?w1 = "if keep elem = 0 then
          (case sys_unlink (w_fs w) (name (file' elem)) of
             Some fs1 \<Rightarrow> printf ''%s deleted\<newline>'' [Arg_s (name (file' elem))] (w\<lparr>w_fs := fs1\<rparr>)
           | None \<Rightarrow> g_warning ''unable to delete '%s' - %m'' [Arg_s (name (file' elem))] w)
        else w"
  have l: "fs_locked (w_fs ?w1) = fs_locked (w_fs w)"
    by (auto simp: sys_unlink_def printf_def g_warning_def g_log_def split: option.splits if_splits)
  have n: "fs_names (w_fs ?w1) nm =
     (if keep elem = 0 \<and> name (file' elem) = nm \<and> \<not> fs_locked (w_fs w) nm
      then None else fs_names (w_fs w) nm)"
    by (auto simp: sys_unlink_def printf_def g_warning_def g_log_def split: option.splits if_splits)
  have "fs_names (w_fs (unlink_marked (elem # dl) w)) nm = fs_names (w_fs (unlink_marked dl ?w1)) nm"
    by simp
  also have "\<dots> = (if (\<exists>e \<in> set dl. keep e = 0 \<and> name (file' e) = nm) \<and> \<not> fs_locked (w_fs ?w1) nm
      then None else fs_names (w_fs ?w1) nm)"
    by (rule Cons.IH)
  also have "\<dots> = (if (\<exists>e \<in> set (elem # dl). keep e = 0 \<and> name (file' e) = nm)
                        \<and> \<not> fs_locked (w_fs w) nm
      then None else fs_names (w_fs w) nm)"
    unfolding l n by auto
  finally show ?case .
qed

text \<open>
  Claim C10.  Whenever the line read by the session starts with the two characters
  \<^verbatim>\<open>go\<close>, whatever follows them, the loop ends by running the deletions on the current
  list: every record whose \<^verbatim>\<open>keep\<close> is 0 is unlinked (its name is gone afterwards unless
  the path is locked).
\<close>

theorem go_prefix_executes:
  assumes "fgets 20 (w_stdin w) = Some (buf, rest)" and "take 2 buf = ''go''"
  shows "delete_loop digest dl pl w =
           unlink_marked dl
             ((fputs ''\<newline>> '' (if pl then print_disposition digest dl w else w))
                \<lparr>w_stdin := rest\<rparr>)
         \<and> (\<forall>e \<in> set dl. keep e = 0 \<and> \<not> fs_locked (w_fs w) (name (file' e)) \<longrightarrow>
               fs_names (w_fs (delete_loop digest dl pl w)) (name (file' e)) = None)"
proof -
  from assms(2) have g: "strncmp buf ''go'' 2 = 0"
    by (simp add: strncmp_go)
  have s: "w_stdin (fputs ''\<newline>> '' (if pl then print_disposition digest dl w else w)) = w_stdin w"
    by simp
  have e: "delete_loop digest dl pl w =
           unlink_marked dl
             ((fputs ''\<newline>> '' (if pl then print_disposition digest dl w else w))
                \<lparr>w_stdin := rest\<rparr>)"
    by (subst delete_loop.simps) (simp add: Let_def assms(1) g)
  have l: "fs_locked (w_fs ((fputs ''\<newline>> '' (if pl then print_disposition digest dl w else w))
                \<lparr>w_stdin := rest\<rparr>)) = fs_locked (w_fs w)"
    by simp
  show ?thesis
    unfolding e by (auto simp add: unlink_marked_names l)
qed



subsection \<open>The lines of a session\<close>

text \<open>The buffers that successive calls \<^verbatim>\<open>fgets(buf, 20, stdin)\<close> return until the end of
  input: the operator's lines, a line longer than 19 bytes arriving in pieces.\<close>

function fgets_lines :: "string \<Rightarrow> string list" where
  "fgets_lines s =
     (case fgets 20 s of None \<Rightarrow> [] | Some (buf, rest) \<Rightarrow> buf # fgets_lines rest)"
  by pat_completeness auto
termination
  by (relation "measure length") (auto dest: fgets_shorter)

declare fgets_lines.simps [simp del]

lemma fgets_lines_None: "fgets 20 s = None \<Longrightarrow> fgets_lines s = []"
  by (subst fgets_lines.simps) simp

lemma fgets_lines_Some: "fgets 20 s = Some (buf, rest) \<Longrightarrow> fgets_lines s = buf # fgets_lines rest"
  by (subst fgets_lines.simps) simp

text \<open>The world after the listing (when due) and the prompt have been printed.\<close>

definition prompted :: "string \<Rightarrow> delete_t list \<Rightarrow> bool \<Rightarrow> world \<Rightarrow> world" where
  "prompted digest dl pl w =
     fputs ''\<newline>> '' (if pl then print_disposition digest dl w else w)"

lemma prompted_frame [simp]:
  "w_fs (prompted digest dl pl w) = w_fs w"
  "w_stdin (prompted digest dl pl w) = w_stdin w"
  "w_calls (prompted digest dl pl w) = w_calls w"
  by (simp_all add: prompted_def)

lemma delete_loop_eof:
  "fgets 20 (w_stdin w) = None
     \<Longrightarrow> delete_loop digest dl pl w =
           fputs ''*** EOF *** no action taken\<newline>'' (prompted digest dl pl w)"
  by (subst delete_loop.simps) (simp add: Let_def prompted_def)

lemma delete_loop_go:
  "fgets 20 (w_stdin w) = Some (buf, rest) \<Longrightarrow> strncmp buf ''go'' 2 = 0
     \<Longrightarrow> delete_loop digest dl pl w
           = unlink_marked dl ((prompted digest dl pl w)\<lparr>w_stdin := rest\<rparr>)"
  by (subst delete_loop.simps) (simp add: Let_def prompted_def)

lemma delete_loop_toggle:
  "fgets 20 (w_stdin w) = Some (buf, rest) \<Longrightarrow> strncmp buf ''go'' 2 \<noteq> 0
     \<Longrightarrow> 0 < atoi buf \<Longrightarrow> nat (atoi buf - 1) < length dl
     \<Longrightarrow> delete_loop digest dl pl w
           = delete_loop digest
               (dl[nat (atoi buf - 1) :=
                     (dl ! nat (atoi buf - 1))\<lparr>keep := 1 - keep (dl ! nat (atoi buf - 1))\<rparr>])
               True ((prompted digest dl pl w)\<lparr>w_stdin := rest\<rparr>)"
  by (subst delete_loop.simps) (simp add: Let_def prompted_def g_list_nth_data_def)

lemma delete_loop_no_file:
  "fgets 20 (w_stdin w) = Some (buf, rest) \<Longrightarrow> strncmp buf ''go'' 2 \<noteq> 0
     \<Longrightarrow> 0 < atoi buf \<Longrightarrow> \<not> nat (atoi buf - 1) < length dl
     \<Longrightarrow> delete_loop digest dl pl w
           = delete_loop digest dl False
               (printf ''no file number %d\<newline>'' [Arg_d (atoi buf)]
                  ((prompted digest dl pl w)\<lparr>w_stdin := rest\<rparr>))"
  by (subst delete_loop.simps) (simp add: Let_def prompted_def g_list_nth_data_def)

lemma delete_loop_invalid:
  "fgets 20 (w_stdin w) = Some (buf, rest) \<Longrightarrow> strncmp buf ''go'' 2 \<noteq> 0
     \<Longrightarrow> \<not> 0 < atoi buf
     \<Longrightarrow> delete_loop digest dl pl w
           = delete_loop digest dl False
               (fputs ''invalid input - please type a number or 'go'\<newline>''
                  ((prompted digest dl pl w)\<lparr>w_stdin := rest\<rparr>))"
  by (subst delete_loop.simps) (simp add: Let_def prompted_def)

lemma delete_loop_no_go:
  "\<forall>buf \<in> set (fgets_lines (w_stdin w)). strncmp buf ''go'' 2 \<noteq> 0
     \<Longrightarrow> w_fs (delete_loop digest dl pl w) = w_fs w
         \<and> w_stdin (delete_loop digest dl pl w) = []
         \<and> w_calls (delete_loop digest dl pl w) = w_calls w
         \<and> last (w_stdout (delete_loop digest dl pl w))
             = (''*** EOF *** no action taken\<newline>'', [])"
proof (induction "length (w_stdin w)" arbitrary: w dl pl rule: less_induct)
  case less
  show ?case
  proof (cases "fgets 20 (w_stdin w)")
    case None
    then have "w_stdin w = []"
      by (simp add: fgets_def split: if_splits prod.splits)
    with None show ?thesis
      by (simp add: delete_loop_eof) (simp add: fputs_def printf_def)
  next
    case (Some p)
    obtain buf rest where p: "p = (buf, rest)"
      by (cases p)
    with Some have f: "fgets 20 (w_stdin w) = Some (buf, rest)"
      by simp
    then have shorter: "length rest < length (w_stdin w)"
      by (rule fgets_shorter)
    from f less.prems have ng: "strncmp buf ''go'' 2 \<noteq> 0"
      and rest: "\<forall>b \<in> set (fgets_lines rest). strncmp b ''go'' 2 \<noteq> 0"
      by (simp_all add: fgets_lines_Some)
    have step: "\<And>w' dl' pl'. w_stdin w' = rest \<Longrightarrow> w_fs w' = w_fs w \<Longrightarrow> w_calls w' = w_calls w
        \<Longrightarrow> w_fs (delete_loop digest dl' pl' w') = w_fs w
         \<and> w_stdin (delete_loop digest dl' pl' w') = []
         \<and> w_calls (delete_loop digest dl' pl' w') = w_calls w
         \<and> last (w_stdout (delete_loop digest dl' pl' w'))
             = (''*** EOF *** no action taken\<newline>'', [])"
      using less.hyps shorter rest by simp
    consider (toggle) "0 < atoi buf" "nat (atoi buf - 1) < length dl"
      | (no_file) "0 < atoi buf" "\<not> nat (atoi buf - 1) < length dl"
      | (invalid) "\<not> 0 < atoi buf"
      by blast
    then show ?thesis
    proof cases
      case toggle
      with f ng show ?thesis
        by (simp add: delete_loop_toggle step)
    next
      case no_file
      with f ng show ?thesis
        by (simp add: delete_loop_no_file step)
    next
      case invalid
      with f ng show ?thesis
        by (simp add: delete_loop_invalid step)
    qed
  qed
qed


text \<open>
  Whether the first entry of the list (the master) is still marked keep when the
  session ends, from its current mark and the lines to come: a line starting with
  \<^verbatim>\<open>go\<close> ends the session, a line whose number is 1 flips the mark, end of input ends
  the session with no action.
\<close>

fun first_kept :: "bool \<Rightarrow> string list \<Rightarrow> bool" where
  "first_kept k [] = True"
| "first_kept k (buf # bufs) =
     (if strncmp buf ''go'' 2 = 0 then k
      else if atoi buf = 1 then first_kept (\<not> k) bufs
      else first_kept k bufs)"

lemma delete_loop_first:
  assumes "keep e = 0 \<or> keep e = 1"
    and "\<forall>x \<in> set es. name (file' x) \<noteq> name (file' e)"
    and "first_kept (keep e = 1) (fgets_lines (w_stdin w))"
  shows "fs_names (w_fs (delete_loop digest (e # es) pl w)) (name (file' e))
           = fs_names (w_fs w) (name (file' e))"
  using assms
proof (induction "length (w_stdin w)" arbitrary: w e es pl rule: less_induct)
  case less
  show ?case
  proof (cases "fgets 20 (w_stdin w)")
    case None
    then show ?thesis
      by (simp add: delete_loop_eof)
  next
    case (Some p)
    obtain buf rest where p: "p = (buf, rest)"
      by (cases p)
    with Some have f: "fgets 20 (w_stdin w) = Some (buf, rest)"
      by simp
    then have shorter: "length rest < length (w_stdin w)"
      by (rule fgets_shorter)
    from f have lines: "fgets_lines (w_stdin w) = buf # fgets_lines rest"
      by (rule fgets_lines_Some)
    show ?thesis
    proof (cases "strncmp buf ''go'' 2 = 0")
      case True
      with less.prems lines have "keep e = 1"
        by simp
      with less.prems(2) True f show ?thesis
        by (auto simp add: delete_loop_go unlink_marked_names)
    next
      case ng: False
      consider (first) "atoi buf = 1"
        | (other) "0 < atoi buf" "atoi buf \<noteq> 1" "nat (atoi buf - 1) < length (e # es)"
        | (no_file) "0 < atoi buf" "\<not> nat (atoi buf - 1) < length (e # es)"
        | (invalid) "\<not> 0 < atoi buf"
        by fastforce
      then show ?thesis
      proof cases
        case first
        let ?e = "e\<lparr>keep := 1 - keep e\<rparr>"
        let ?w = "(prompted digest (e # es) pl w)\<lparr>w_stdin := rest\<rparr>"
        from first f ng
        have "delete_loop digest (e # es) pl w = delete_loop digest (?e # es) True ?w"
          by (simp add: delete_loop_toggle)
        moreover have "fs_names (w_fs (delete_loop digest (?e # es) True ?w)) (name (file' ?e))
           = fs_names (w_fs ?w) (name (file' ?e))"
        proof (rule less.hyps)
          show "length (w_stdin ?w) < length (w_stdin w)"
            using shorter by simp
          show "keep ?e = 0 \<or> keep ?e = 1"
            using less.prems(1) by auto
          show "\<forall>x \<in> set es. name (file' x) \<noteq> name (file' ?e)"
            using less.prems(2) by simp
          show "first_kept (keep ?e = 1) (fgets_lines (w_stdin ?w))"
            using less.prems(1,3) lines ng first by auto
        qed
        ultimately show ?thesis
          by simp
      next
        case other
        let ?k = "nat (atoi buf - 1)"
        let ?es = "es[?k - 1 := (es ! (?k - 1))\<lparr>keep := 1 - keep (es ! (?k - 1))\<rparr>]"
        let ?w = "(prompted digest (e # es) pl w)\<lparr>w_stdin := rest\<rparr>"
        from other have k: "0 < ?k" "?k - 1 < length es"
          by auto
        then have upd: "(e # es)[?k := ((e # es) ! ?k)\<lparr>keep := 1 - keep ((e # es) ! ?k)\<rparr>] = e # ?es"
          by (cases ?k) simp_all
        from other f ng
        have "delete_loop digest (e # es) pl w = delete_loop digest (e # ?es) True ?w"
          using delete_loop_toggle [of w buf rest "e # es" digest pl] upd by simp
        moreover have "fs_names (w_fs (delete_loop digest (e # ?es) True ?w)) (name (file' e))
           = fs_names (w_fs ?w) (name (file' e))"
        proof (rule less.hyps)
          show "length (w_stdin ?w) < length (w_stdin w)"
            using shorter by simp
          show "keep e = 0 \<or> keep e = 1"
            by (rule less.prems(1))
          show "\<forall>x \<in> set ?es. name (file' x) \<noteq> name (file' e)"
          proof
            fix x assume "x \<in> set ?es"
            then have "x \<in> set es \<or> x = (es ! (?k - 1))\<lparr>keep := 1 - keep (es ! (?k - 1))\<rparr>"
              by (auto dest: set_update_subset_insert [THEN subsetD])
            with less.prems(2) k(2) show "name (file' x) \<noteq> name (file' e)"
              by auto
          qed
          show "first_kept (keep e = 1) (fgets_lines (w_stdin ?w))"
            using less.prems(3) lines ng other by simp
        qed
        ultimately show ?thesis
          by simp
      next
        case no_file
        let ?w = "printf ''no file number %d\<newline>'' [Arg_d (atoi buf)]
                    ((prompted digest (e # es) pl w)\<lparr>w_stdin := rest\<rparr>)"
        from no_file have "atoi buf \<noteq> 1"
          by auto
        have "delete_loop digest (e # es) pl w = delete_loop digest (e # es) False ?w"
          by (rule delete_loop_no_file [OF f ng no_file])
        moreover have "fs_names (w_fs (delete_loop digest (e # es) False ?w)) (name (file' e))
           = fs_names (w_fs ?w) (name (file' e))"
          using less.prems lines ng \<open>atoi buf \<noteq> 1\<close> shorter
          by (intro less.hyps) simp_all
        ultimately show ?thesis
          by simp
      next
        case invalid
        let ?w = "fputs ''invalid input - please type a number or 'go'\<newline>''
                    ((prompted digest (e # es) pl w)\<lparr>w_stdin := rest\<rparr>)"
        from invalid have "atoi buf \<noteq> 1"
          by auto
        have "delete_loop digest (e # es) pl w = delete_loop digest (e # es) False ?w"
          by (rule delete_loop_invalid [OF f ng invalid])
        moreover have "fs_names (w_fs (delete_loop digest (e # es) False ?w)) (name (file' e))
           = fs_names (w_fs ?w) (name (file' e))"
          using less.prems lines ng \<open>atoi buf \<noteq> 1\<close> shorter
          by (intro less.hyps) simp_all
        ultimately show ?thesis
          by simp
      qed
    qed
  qed
qed


lemma w_fs_list_files_loop [simp]: "w_fs (list_files_loop options fs list w) = w_fs w"
  by (induction list arbitrary: w) simp_all

lemma w_fs_list_files [simp]: "w_fs (list_files options master list w) = w_fs w"
  by (simp add: list_files_def Let_def)

lemma link_pair_names:
  "nm \<noteq> name slave \<Longrightarrow> fs_names (w_fs (link_pair master slave w)) nm = fs_names (w_fs w) nm"
  by (auto simp: link_pair_def sys_unlink_def sys_link_def g_warning_def
        split: option.splits if_splits)

lemma link_pair_frame:
  "fs_inodes (w_fs (link_pair master slave w)) = fs_inodes (w_fs w)
   \<and> w_stdin (link_pair master slave w) = w_stdin w
   \<and> w_calls (link_pair master slave w) = w_calls w"
  by (auto simp: link_pair_def sys_unlink_def sys_link_def g_warning_def g_log_def
        split: option.splits if_splits)

text \<open>
  Claim C1, as amended.  \<^verbatim>\<open>list_files\<close> leaves the file system as it is; \<^verbatim>\<open>link_pair\<close>
  leaves the master's name as it is (the slave being another path); and
  \<^verbatim>\<open>delete_files\<close> leaves the master's name as it is in every session that does not
  reach a go-ahead line with the master's own entry, number 1, toggled an odd number
  of times.
\<close>

theorem master_preserved_unless_toggled:
  "w_fs (list_files options master list w) = w_fs w
   \<and> (name slave \<noteq> name master \<longrightarrow>
        fs_names (w_fs (link_pair master slave w)) (name master)
          = fs_names (w_fs w) (name master))
   \<and> (name master \<notin> name ` set list \<and> first_kept True (fgets_lines (w_stdin w)) \<longrightarrow>
        fs_names (w_fs (delete_files digest master list w)) (name master)
          = fs_names (w_fs w) (name master))"
proof -
  have "fs_names (w_fs (delete_files digest master list w)) (name master)
          = fs_names (w_fs w) (name master)"
    if m: "name master \<notin> name ` set list" "first_kept True (fgets_lines (w_stdin w))"
  proof -
    from m(1) have "\<forall>x \<in> set (map (\<lambda>f. \<lparr>file' = f, keep = 0\<rparr>) list).
        name (file' x) \<noteq> name (file' \<lparr>file' = master, keep = 1\<rparr>)"
      by (force simp: image_iff)
    with m(2) show ?thesis
      using delete_loop_first
            [of "\<lparr>file' = master, keep = 1\<rparr>" "map (\<lambda>f. \<lparr>file' = f, keep = 0\<rparr>) list" w digest True]
      by (simp add: delete_files_def)
  qed
  then show ?thesis
    by (simp add: link_pair_names)
qed

lemma example_lines:
  "fgets 20 ''1\<newline>go\<newline>'' = Some (''1\<newline>'', ''go\<newline>'')"
  "fgets 20 ''2\<newline>go\<newline>'' = Some (''2\<newline>'', ''go\<newline>'')"
  "fgets 20 ''go\<newline>'' = Some (''go\<newline>'', [])"
  "fgets 20 ''gone\<newline>'' = Some (''gone\<newline>'', [])"
  "fgets 20 [] = None"
  by (simp_all add: fgets_def c_str_def eval_nat_numeral)

lemma example_atoi: "atoi ''1\<newline>'' = 1" "atoi ''2\<newline>'' = 2"
  by (simp_all add: atoi_def strtol_def isspace_def isdigit_def to_gint_def LONG_MAX_def)

lemma example_names:
  "fs_names (w_fs (example_world input)) ''a'' = Some 11"
  "fs_names (w_fs (example_world input)) ''b'' = Some 12"
  "fs_locked (w_fs (example_world input)) nm = False"
  by (simp_all add: example_world_def example_fs_def)

text \<open>
  The claim as stated fails: the master is entry 1 of the list and can be toggled like
  any other.  On the input \<^verbatim>\<open>1\<close>, \<^verbatim>\<open>go\<close> the master's name is unlinked.
\<close>

theorem master_unlinked_counterexample:
  "fs_names (w_fs (example_world ''1\<newline>go\<newline>'')) (name (example_file ''a'')) = Some 11
   \<and> fs_names (w_fs (delete_files ''k'' (example_file ''a'') [example_file ''b'']
                      (example_world ''1\<newline>go\<newline>''))) (name (example_file ''a'')) = None"
proof -
  let ?a = "example_file ''a''" and ?b = "example_file ''b''"
  let ?w = "example_world ''1\<newline>go\<newline>''"
  let ?dl = "[\<lparr>file' = ?a, keep = 1\<rparr>, \<lparr>file' = ?b, keep = 0\<rparr>]"
  let ?dl' = "[\<lparr>file' = ?a, keep = 0\<rparr>, \<lparr>file' = ?b, keep = 0\<rparr>]"
  let ?w1 = "(prompted ''k'' ?dl True ?w)\<lparr>w_stdin := ''go\<newline>''\<rparr>"
  let ?w2 = "(prompted ''k'' ?dl' True ?w1)\<lparr>w_stdin := []\<rparr>"
  have in0: "w_stdin ?w = ''1\<newline>go\<newline>''"
    by (simp add: example_world_def)
  have "delete_files ''k'' ?a [?b] ?w = delete_loop ''k'' ?dl True ?w"
    by (simp add: delete_files_def)
  also have "\<dots> = delete_loop ''k'' ?dl' True ?w1"
    using delete_loop_toggle [of ?w "''1\<newline>''" "''go\<newline>''" ?dl "''k''" True]
    by (simp add: in0 example_lines example_atoi strncmp_go)
  also have "\<dots> = unlink_marked ?dl' ?w2"
    using delete_loop_go [of ?w1 "''go\<newline>''" "[]" "''k''" ?dl' True]
    by (simp add: example_lines strncmp_go)
  finally have e: "delete_files ''k'' ?a [?b] ?w = unlink_marked ?dl' ?w2" .
  show ?thesis
    unfolding e
    by (simp add: unlink_marked_names example_names example_file_def del: unlink_marked.simps)
qed

lemma example_session_lines:
  "fgets_lines ''2\<newline>go\<newline>'' = [''2\<newline>'', ''go\<newline>'']"
  by (simp add: fgets_lines_Some example_lines fgets_lines_None)

theorem master_preserved_unless_toggled_witness:
  "name (example_file ''b'') \<noteq> name (example_file ''a'')
   \<and> name (example_file ''a'') \<notin> name ` set [example_file ''b'']
   \<and> first_kept True (fgets_lines (w_stdin (example_world ''2\<newline>go\<newline>'')))
   \<and> fs_names (w_fs (link_pair (example_file ''a'') (example_file ''b'')
                      (example_world ''2\<newline>go\<newline>''))) (name (example_file ''a'')) = Some 11
   \<and> fs_names (w_fs (delete_files ''k'' (example_file ''a'') [example_file ''b'']
                      (example_world ''2\<newline>go\<newline>''))) (name (example_file ''a'')) = Some 11"
proof -
  have h: "name (example_file ''b'') \<noteq> name (example_file ''a'')"
    "name (example_file ''a'') \<notin> name ` set [example_file ''b'']"
    "first_kept True (fgets_lines (w_stdin (example_world ''2\<newline>go\<newline>'')))"
    by (simp_all add: example_file_def example_world_def example_session_lines example_atoi
          strncmp_go)
  with master_preserved_unless_toggled
         [of 0 "example_file ''a''" "[example_file ''b'']" "example_world ''2\<newline>go\<newline>''"
             "example_file ''b''" "''k''"]
  show ?thesis
    by (simp add: example_names example_file_def)
qed

theorem go_prefix_executes_witness:
  "fgets 20 (w_stdin (example_world ''gone\<newline>'')) = Some (''gone\<newline>'', [])
   \<and> take 2 ''gone\<newline>'' = ''go''
   \<and> fs_names (w_fs (delete_loop ''k''
         [\<lparr>file' = example_file ''a'', keep = 1\<rparr>, \<lparr>file' = example_file ''b'', keep = 0\<rparr>]
         True (example_world ''gone\<newline>''))) ''b'' = None"
proof -
  have h: "fgets 20 (w_stdin (example_world ''gone\<newline>'')) = Some (''gone\<newline>'', [])"
    "take 2 ''gone\<newline>'' = ''go''"
    by (simp_all add: example_world_def example_lines)
  from go_prefix_executes [OF h, of "''k''"
         "[\<lparr>file' = example_file ''a'', keep = 1\<rparr>, \<lparr>file' = example_file ''b'', keep = 0\<rparr>]" True,
         THEN conjunct2, THEN bspec, of "\<lparr>file' = example_file ''b'', keep = 0\<rparr>"]
  have "fs_names (w_fs (delete_loop ''k''
         [\<lparr>file' = example_file ''a'', keep = 1\<rparr>, \<lparr>file' = example_file ''b'', keep = 0\<rparr>]
         True (example_world ''gone\<newline>''))) (name (example_file ''b'')) = None"
    by (simp add: example_names del: unlink_marked.simps)
  with h show ?thesis
    by (simp add: example_file_def)
qed

section \<open>The command line\<close>











text \<open>A stand-in for a checksum in concrete runs: the digest of a file is its length,
  written in unary.\<close>

definition example_checksum :: "byte list gchecksum" where
  "example_checksum =
     \<lparr>g_checksum_new = [],
      g_checksum_update = (\<lambda>d buf. d @ buf),
      g_checksum_get_string = (\<lambda>d. Some (replicate (length d) CHR ''x'')),
      g_checksum_reset = (\<lambda>d. [])\<rparr>"



section \<open>The digest phase and failed reads\<close>

lemma digest_read_failure:
  "sys_read fs fd 8192 = (Rd_err, fd') \<Longrightarrow> digest_read cs fs fd d = d"
  by (subst digest_read.simps) simp

lemma file_foreach_read_failure:
  assumes "sys_open (w_fs w) key = Some fd" and "sys_read (w_fs w) fd 8192 = (Rd_err, fd')"
    and "g_checksum_get_string cs (digest' fdata) = Some txt"
    and "map_of (hash fdata) txt = None"
  shows "file_foreach cs key val fdata w =
           (False,
            fdata\<lparr>hash := hash fdata @ [(txt, \<lparr>nfile = 1, files = [val]\<rparr>)],
                   digest' := g_checksum_reset cs (digest' fdata)\<rparr>,
            w)"
  using assms by (simp add: file_foreach_def digest_read_failure)

text \<open>
  Claim C3 asks that a file whose read fails after a successful open be warned about
  and skipped.  \<^verbatim>\<open>file_foreach\<close> ends its read loop on a failed read as on the end of the
  file, with no test of the error: the file \<^verbatim>\<open>d\<close>, which opens and whose first read fails,
  is entered in the bucket of the digest of no bytes, and nothing is logged.
\<close>

theorem read_failure_still_indexed:
  "sys_open (w_fs (example_world [])) ''d'' = Some (14, 0)
   \<and> sys_read (w_fs (example_world [])) (14, 0) 8192 = (Rd_err, (14, 0))
   \<and> file_foreach example_checksum ''d'' (example_file ''d'')
         \<lparr>hash = [], digest' = g_checksum_new example_checksum\<rparr> (example_world [])
       = (False,
          \<lparr>hash = [([], \<lparr>nfile = 1, files = [example_file ''d'']\<rparr>)], digest' = []\<rparr>,
          example_world [])"
proof -
  have o: "sys_open (w_fs (example_world [])) ''d'' = Some (14, 0)"
    by (simp add: sys_open_def example_world_def example_fs_def)
  have r: "sys_read (w_fs (example_world [])) (14, 0) 8192 = (Rd_err, (14, 0))"
    by (simp add: sys_read_def example_world_def example_fs_def)
  from file_foreach_read_failure [OF o r, of example_checksum
         "\<lparr>hash = [], digest' = g_checksum_new example_checksum\<rparr>" "[]" "example_file ''d''"]
  have "file_foreach example_checksum ''d'' (example_file ''d'')
         \<lparr>hash = [], digest' = g_checksum_new example_checksum\<rparr> (example_world [])
       = (False,
          \<lparr>hash = [([], \<lparr>nfile = 1, files = [example_file ''d'']\<rparr>)], digest' = []\<rparr>,
          example_world [])"
    by (simp add: example_checksum_def)
  with o r show ?thesis
    by simp
qed

section \<open>Resolving a bucket\<close>

subsection \<open>Byte identity\<close>

text \<open>Two records are byte-identical in a file system when both paths are readable
  and hold the same bytes.\<close>

definition byte_identical :: "fs_t \<Rightarrow> file_t \<Rightarrow> file_t \<Rightarrow> bool" where
  "byte_identical fs a b \<longleftrightarrow>
     readable fs (name a) \<and> readable fs (name b) \<and> bytes_of fs (name a) = bytes_of fs (name b)"

lemma read_chunks_same_data:
  "Rd_err \<notin> set (read_chunks fs fd) \<Longrightarrow> Rd_err \<notin> set (read_chunks fs fd2)
     \<Longrightarrow> drop (snd fd) (i_data (fs_inodes fs (fst fd)))
           = drop (snd fd2) (i_data (fs_inodes fs (fst fd2)))
     \<Longrightarrow> read_chunks fs fd = read_chunks fs fd2"
proof (induction fs fd arbitrary: fd2 rule: read_chunks.induct)
  case (1 fs fd)
  obtain r fd' where r: "sys_read fs fd CHUNK_SIZE = (r, fd')"
    by (cases "sys_read fs fd CHUNK_SIZE")
  obtain r2 fd2' where r2: "sys_read fs fd2 CHUNK_SIZE = (r2, fd2')"
    by (cases "sys_read fs fd2 CHUNK_SIZE")
  from r "1.prems"(1) obtain buf where buf: "r = Rd buf"
    by (cases r) (auto simp: read_chunks.simps [of fs fd])
  from r2 "1.prems"(2) obtain buf2 where buf2: "r2 = Rd buf2"
    by (cases r2) (auto simp: read_chunks.simps [of fs fd2])
  from r buf have b: "buf = take CHUNK_SIZE (drop (snd fd) (i_data (fs_inodes fs (fst fd))))"
    and fd': "fd' = (fst fd, snd fd + length buf)"
    by (auto simp: sys_read_def Let_def split: if_splits)
  from r2 buf2 have b2: "buf2 = take CHUNK_SIZE (drop (snd fd2) (i_data (fs_inodes fs (fst fd2))))"
    and fd2': "fd2' = (fst fd2, snd fd2 + length buf2)"
    by (auto simp: sys_read_def Let_def split: if_splits)
  from b b2 "1.prems"(3) have e: "buf = buf2"
    by simp
  show ?case
  proof (cases "buf = []")
    case True
    with e r r2 buf buf2 show ?thesis
      by (simp add: read_chunks.simps [of fs fd] read_chunks.simps [of fs fd2])
  next
    case False
    have "drop (snd fd') (i_data (fs_inodes fs (fst fd')))
           = drop (length buf) (drop (snd fd) (i_data (fs_inodes fs (fst fd))))"
      using fd' by (simp add: add.commute)
    also have "\<dots> = drop (length buf2) (drop (snd fd2) (i_data (fs_inodes fs (fst fd2))))"
      using e "1.prems"(3) by simp
    also have "\<dots> = drop (snd fd2') (i_data (fs_inodes fs (fst fd2')))"
      using fd2' by (simp add: add.commute)
    finally have d: "drop (snd fd') (i_data (fs_inodes fs (fst fd')))
           = drop (snd fd2') (i_data (fs_inodes fs (fst fd2')))" .
    from False r buf "1.prems"(1) have n1: "Rd_err \<notin> set (read_chunks fs fd')"
      by (simp add: read_chunks.simps [of fs fd])
    from False e r2 buf2 "1.prems"(2) have n2: "Rd_err \<notin> set (read_chunks fs fd2')"
      by (simp add: read_chunks.simps [of fs fd2])
    from "1.IH" [OF r [symmetric] buf False n1 n2 d] False e r r2 buf buf2 show ?thesis
      by (simp add: read_chunks.simps [of fs fd] read_chunks.simps [of fs fd2])
  qed
qed

lemma compare_files_byte_identical:
  "fst (compare_files a b w) \<noteq> 0 \<longleftrightarrow> byte_identical (w_fs w) a b"
proof -
  let ?fs = "w_fs w"
  show ?thesis
  proof (cases "sys_open ?fs (name a)")
    case None
    then show ?thesis
      by (simp add: compare_files_status byte_identical_def readable_def)
  next
    case a: (Some fd1)
    show ?thesis
    proof (cases "sys_open ?fs (name b)")
      case None
      with a show ?thesis
        by (simp add: compare_files_status byte_identical_def readable_def)
    next
      case b: (Some fd2)
      from a have fd1: "fs_names ?fs (name a) = Some (fst fd1)" "snd fd1 = 0"
        by (auto simp: sys_open_def split: option.splits if_splits)
      from b have fd2: "fs_names ?fs (name b) = Some (fst fd2)" "snd fd2 = 0"
        by (auto simp: sys_open_def split: option.splits if_splits)
      have "read_chunks ?fs fd1 = read_chunks ?fs fd2 \<and> Rd_err \<notin> set (read_chunks ?fs fd1)
        \<longleftrightarrow> Rd_err \<notin> set (read_chunks ?fs fd1) \<and> Rd_err \<notin> set (read_chunks ?fs fd2)
            \<and> i_data (fs_inodes ?fs (fst fd1)) = i_data (fs_inodes ?fs (fst fd2))"
        (is "?l \<longleftrightarrow> ?r")
      proof
        assume l: ?l
        have n: "Rd_err \<notin> set (read_chunks ?fs fd1)" "Rd_err \<notin> set (read_chunks ?fs fd2)"
          using l by metis+
        from read_chunks_concat [OF n(1)] read_chunks_concat [OF n(2)] l fd1(2) fd2(2)
        have "i_data (fs_inodes ?fs (fst fd1)) = i_data (fs_inodes ?fs (fst fd2))"
          by simp
        with n show ?r
          by simp
      next
        assume r: ?r
        with fd1(2) fd2(2) have "read_chunks ?fs fd1 = read_chunks ?fs fd2"
          by (intro read_chunks_same_data) simp_all
        with r show ?l
          by simp
      qed
      with a b fd1 fd2 show ?thesis
        by (simp add: compare_files_status byte_identical_def readable_def bytes_of_def)
    qed
  qed
qed

lemma read_chunks_inodes:
  "fs_inodes fs = fs_inodes fs' \<Longrightarrow> read_chunks fs fd = read_chunks fs' fd"
proof (induction fs fd rule: read_chunks.induct)
  case (1 fs fd)
  from "1.prems" have s: "sys_read fs' fd CHUNK_SIZE = sys_read fs fd CHUNK_SIZE"
    by (simp add: sys_read_def)
  obtain r fd' where r: "sys_read fs fd CHUNK_SIZE = (r, fd')"
    by (cases "sys_read fs fd CHUNK_SIZE")
  show ?case
  proof (cases r)
    case Rd_err
    with r s show ?thesis
      by (simp add: read_chunks.simps [of fs fd] read_chunks.simps [of fs' fd])
  next
    case (Rd buf)
    show ?thesis
    proof (cases "buf = []")
      case True
      with r s Rd show ?thesis
        by (simp add: read_chunks.simps [of fs fd] read_chunks.simps [of fs' fd])
    next
      case False
      from "1.IH" [OF r [symmetric] Rd False "1.prems"] r s Rd False show ?thesis
        by (simp add: read_chunks.simps [of fs fd] read_chunks.simps [of fs' fd])
    qed
  qed
qed

lemma byte_identical_agree:
  assumes "fs_inodes fs = fs_inodes fs'"
    and "fs_names fs (name a) = fs_names fs' (name a)"
    and "fs_names fs (name b) = fs_names fs' (name b)"
  shows "byte_identical fs a b = byte_identical fs' a b"
proof -
  have "sys_open fs (name a) = sys_open fs' (name a)" "sys_open fs (name b) = sys_open fs' (name b)"
    "bytes_of fs (name a) = bytes_of fs' (name a)" "bytes_of fs (name b) = bytes_of fs' (name b)"
    by (simp_all only: sys_open_def bytes_of_def assms)
  with read_chunks_inodes [OF assms(1)] show ?thesis
    by (simp only: byte_identical_def readable_def)
qed

lemma byte_identical_sym: "byte_identical fs a b \<Longrightarrow> byte_identical fs b a"
  by (simp add: byte_identical_def)

lemma byte_identical_trans:
  "byte_identical fs a b \<Longrightarrow> byte_identical fs b c \<Longrightarrow> byte_identical fs a c"
  by (simp add: byte_identical_def)


subsection \<open>The rounds\<close>

text \<open>
  The rounds as the specification describes them, over an equality test: the first
  record is the master, the records equal to it are its duplicates, a group is emitted
  when there are any, and the rounds go on with the records that were not equal.
\<close>

fun duplicate_groups :: "('a \<Rightarrow> 'a \<Rightarrow> bool) \<Rightarrow> 'a list \<Rightarrow> ('a \<times> 'a list) list" where
  "duplicate_groups eq [] = []"
| "duplicate_groups eq (master # rest) =
     (if filter (eq master) rest = [] then [] else [(master, filter (eq master) rest)])
     @ duplicate_groups eq (filter (\<lambda>x. \<not> eq master x) rest)"

text \<open>The calls of the action functions that a group gives rise to: one \<^verbatim>\<open>link_pair\<close> for
  each duplicate in link mode, one \<^verbatim>\<open>delete_files\<close> or \<^verbatim>\<open>list_files\<close> otherwise.\<close>

definition group_calls :: "64 word \<Rightarrow> string \<Rightarrow> file_t \<times> file_t list \<Rightarrow> call list" where
  "group_calls options key grp =
     (case grp of (master, good) \<Rightarrow>
        if options AND OPT_LINK \<noteq> 0 then map (Call_link master) good
        else if options AND OPT_DELETE \<noteq> 0 then [Call_delete key master good]
        else [Call_list master good])"

lemma compare_round_nolink:
  assumes "options AND OPT_LINK = 0"
    and "fs_inodes (w_fs w) = fs_inodes fs0"
    and "\<forall>x \<in> set (m # xs). fs_names (w_fs w) (name x) = fs_names fs0 (name x)"
  shows "fst (compare_round options m xs g b n w) = g @ filter (byte_identical fs0 m) xs
    \<and> fst (snd (compare_round options m xs g b n w))
           = b @ filter (\<lambda>x. \<not> byte_identical fs0 m x) xs
    \<and> fst (snd (snd (compare_round options m xs g b n w)))
           = n + int (length (filter (byte_identical fs0 m) xs))
    \<and> w_fs (snd (snd (snd (compare_round options m xs g b n w)))) = w_fs w
    \<and> w_stdin (snd (snd (snd (compare_round options m xs g b n w)))) = w_stdin w
    \<and> w_calls (snd (snd (snd (compare_round options m xs g b n w)))) = w_calls w"
  using assms
proof (induction xs arbitrary: g b n w)
  case Nil
  show ?case by simp
next
  case (Cons x xs)
  obtain status w1 where c: "compare_files m x w = (status, w1)"
    by (cases "compare_files m x w")
  have f1: "w_fs w1 = w_fs w" "w_stdin w1 = w_stdin w" "w_calls w1 = w_calls w"
    using c compare_files_frame [of m x w] by simp_all
  from Cons.prems have "byte_identical (w_fs w) m x = byte_identical fs0 m x"
    by (intro byte_identical_agree) simp_all
  with c compare_files_byte_identical [of m x w]
  have st: "status \<noteq> 0 \<longleftrightarrow> byte_identical fs0 m x"
    by simp
  from Cons.prems f1 have q: "fs_inodes (w_fs w1) = fs_inodes fs0"
    "\<forall>y \<in> set (m # xs). fs_names (w_fs w1) (name y) = fs_names fs0 (name y)"
    by simp_all
  show ?case
  proof (cases "byte_identical fs0 m x")
    case True
    with c st Cons.prems(1)
    have "compare_round options m (x # xs) g b n w
            = compare_round options m xs (g @ [x]) b (n + 1) w1"
      by simp
    with Cons.IH [OF Cons.prems(1) q, of "g @ [x]" b "n + 1"] True f1 show ?thesis
      by simp
  next
    case False
    with c st Cons.prems(1)
    have "compare_round options m (x # xs) g b n w
            = compare_round options m xs g (b @ [x]) n w1"
      by simp
    with Cons.IH [OF Cons.prems(1) q, of g "b @ [x]" n] False f1 show ?thesis
      by simp
  qed
qed

lemma compare_round_link:
  assumes "options AND OPT_LINK \<noteq> 0"
    and "distinct (map name (m # xs))"
    and "fs_inodes (w_fs w) = fs_inodes fs0"
    and "\<forall>x \<in> set (m # xs). fs_names (w_fs w) (name x) = fs_names fs0 (name x)"
  shows "fst (compare_round options m xs g b n w) = g
    \<and> fst (snd (compare_round options m xs g b n w))
           = b @ filter (\<lambda>x. \<not> byte_identical fs0 m x) xs
    \<and> fst (snd (snd (compare_round options m xs g b n w))) = n
    \<and> fs_inodes (w_fs (snd (snd (snd (compare_round options m xs g b n w)))))
           = fs_inodes (w_fs w)
    \<and> (\<forall>nm. nm \<notin> name ` set (filter (byte_identical fs0 m) xs) \<longrightarrow>
           fs_names (w_fs (snd (snd (snd (compare_round options m xs g b n w))))) nm
             = fs_names (w_fs w) nm)
    \<and> w_stdin (snd (snd (snd (compare_round options m xs g b n w)))) = w_stdin w
    \<and> w_calls (snd (snd (snd (compare_round options m xs g b n w))))
           = w_calls w @ map (Call_link m) (filter (byte_identical fs0 m) xs)"
  using assms
proof (induction xs arbitrary: g b n w)
  case Nil
  show ?case by simp
next
  case (Cons x xs)
  obtain status w1 where c: "compare_files m x w = (status, w1)"
    by (cases "compare_files m x w")
  have f1: "w_fs w1 = w_fs w" "w_stdin w1 = w_stdin w" "w_calls w1 = w_calls w"
    using c compare_files_frame [of m x w] by simp_all
  from Cons.prems have "byte_identical (w_fs w) m x = byte_identical fs0 m x"
    by (intro byte_identical_agree) simp_all
  with c compare_files_byte_identical [of m x w]
  have st: "status \<noteq> 0 \<longleftrightarrow> byte_identical fs0 m x"
    by simp
  from Cons.prems(2) have d: "distinct (map name (m # xs))"
    by auto
  show ?case
  proof (cases "byte_identical fs0 m x")
    case False
    from Cons.prems f1 have q: "fs_inodes (w_fs w1) = fs_inodes fs0"
      "\<forall>y \<in> set (m # xs). fs_names (w_fs w1) (name y) = fs_names fs0 (name y)"
      by simp_all
    from False c st Cons.prems(1)
    have "compare_round options m (x # xs) g b n w
            = compare_round options m xs g (b @ [x]) n w1"
      by simp
    with Cons.IH [OF Cons.prems(1) d q, of g "b @ [x]" n] False f1 show ?thesis
      by simp
  next
    case True
    let ?w2 = "link_pair m x (called (Call_link m x) w1)"
    have fr: "fs_inodes (w_fs ?w2) = fs_inodes (w_fs w)" "w_stdin ?w2 = w_stdin w"
      "w_calls ?w2 = w_calls w @ [Call_link m x]"
      using f1 link_pair_frame [of m x "called (Call_link m x) w1"]
      by (simp_all add: called_def)
    have frn: "fs_names (w_fs ?w2) nm = fs_names (w_fs w) nm" if "nm \<noteq> name x" for nm
      using that f1 link_pair_names [of nm x m "called (Call_link m x) w1"]
      by (simp add: called_def)
    from Cons.prems(2) have nx: "\<forall>y \<in> set (m # xs). name y \<noteq> name x"
      by (force simp: image_iff)
    with Cons.prems fr frn have q: "fs_inodes (w_fs ?w2) = fs_inodes fs0"
      "\<forall>y \<in> set (m # xs). fs_names (w_fs ?w2) (name y) = fs_names fs0 (name y)"
      by simp_all
    from True c st Cons.prems(1)
    have "compare_round options m (x # xs) g b n w = compare_round options m xs g b n ?w2"
      by simp
    with Cons.IH [OF Cons.prems(1) d q, of g b n] True fr frn show ?thesis
      by auto
  qed
qed


subsection \<open>What the actions leave alone\<close>

lemma list_files_loop_frame [simp]:
  "w_stdin (list_files_loop options fs list w) = w_stdin w"
  "w_calls (list_files_loop options fs list w) = w_calls w"
  by (induction list arbitrary: w) simp_all

lemma list_files_frame [simp]:
  "w_stdin (list_files options master list w) = w_stdin w"
  "w_calls (list_files options master list w) = w_calls w"
  by (simp_all add: list_files_def Let_def)

lemma toggle_keeps_names:
  "k < length dl \<Longrightarrow>
     map (\<lambda>e. name (file' e)) (dl[k := (dl ! k)\<lparr>keep := v\<rparr>]) = map (\<lambda>e. name (file' e)) dl"
  by (simp add: map_update list_update_same_conv)

lemma delete_loop_frame:
  "fs_inodes (w_fs (delete_loop dg dl pl w)) = fs_inodes (w_fs w)
   \<and> (\<forall>nm. nm \<notin> set (map (\<lambda>e. name (file' e)) dl) \<longrightarrow>
          fs_names (w_fs (delete_loop dg dl pl w)) nm = fs_names (w_fs w) nm)
   \<and> w_calls (delete_loop dg dl pl w) = w_calls w"
proof (induction "length (w_stdin w)" arbitrary: w dl pl rule: less_induct)
  case less
  show ?case
  proof (cases "fgets 20 (w_stdin w)")
    case None
    then show ?thesis
      by (simp add: delete_loop_eof)
  next
    case (Some p)
    obtain buf rest where p: "p = (buf, rest)"
      by (cases p)
    with Some have f: "fgets 20 (w_stdin w) = Some (buf, rest)"
      by simp
    then have shorter: "length rest < length (w_stdin w)"
      by (rule fgets_shorter)
    have step: "fs_inodes (w_fs (delete_loop dg dl' pl' w')) = fs_inodes (w_fs w)
        \<and> (\<forall>nm. nm \<notin> set (map (\<lambda>e. name (file' e)) dl) \<longrightarrow>
              fs_names (w_fs (delete_loop dg dl' pl' w')) nm = fs_names (w_fs w) nm)
        \<and> w_calls (delete_loop dg dl' pl' w') = w_calls w"
      if "w_stdin w' = rest" "w_fs w' = w_fs w" "w_calls w' = w_calls w"
        "map (\<lambda>e. name (file' e)) dl' = map (\<lambda>e. name (file' e)) dl"
      for w' dl' pl'
      using less.hyps [of w' dl' pl'] shorter that by simp
    show ?thesis
    proof (cases "strncmp buf ''go'' 2 = 0")
      case True
      with f show ?thesis
        by (auto simp add: delete_loop_go unlink_marked_frame unlink_marked_names)
    next
      case ng: False
      consider (toggle) "0 < atoi buf" "nat (atoi buf - 1) < length dl"
        | (no_file) "0 < atoi buf" "\<not> nat (atoi buf - 1) < length dl"
        | (invalid) "\<not> 0 < atoi buf"
        by blast
      then show ?thesis
      proof cases
        case toggle
        show ?thesis
          unfolding delete_loop_toggle [OF f ng toggle]
          by (rule step) (simp_all add: toggle_keeps_names toggle)
      next
        case no_file
        show ?thesis
          unfolding delete_loop_no_file [OF f ng no_file]
          by (rule step) simp_all
      next
        case invalid
        show ?thesis
          unfolding delete_loop_invalid [OF f ng invalid]
          by (rule step) simp_all
      qed
    qed
  qed
qed

lemma delete_files_frame:
  "fs_inodes (w_fs (delete_files dg master list w)) = fs_inodes (w_fs w)
   \<and> (\<forall>nm. nm \<notin> name ` set (master # list) \<longrightarrow>
          fs_names (w_fs (delete_files dg master list w)) nm = fs_names (w_fs w) nm)
   \<and> w_calls (delete_files dg master list w) = w_calls w"
  using delete_loop_frame
          [of dg "\<lparr>file' = master, keep = 1\<rparr> # map (\<lambda>f. \<lparr>file' = f, keep = 0\<rparr>) list" True w]
  by (simp add: delete_files_def comp_def image_iff)


subsection \<open>The loop of \<^verbatim>\<open>digest_foreach\<close> performs the rounds\<close>

lemma distinct_map_eq:
  "distinct (map f xs) \<Longrightarrow> x \<in> set xs \<Longrightarrow> y \<in> set xs \<Longrightarrow> f x = f y \<Longrightarrow> x = y"
  by (auto simp: distinct_map dest: inj_onD)

lemma resolve_rounds_spec:
  assumes "distinct (map name xs)"
    and "fs_inodes (w_fs w) = fs_inodes fs0"
    and "\<forall>x \<in> set xs. fs_names (w_fs w) (name x) = fs_names fs0 (name x)"
  shows "w_calls (resolve_rounds options key xs w)
           = w_calls w @ concat (map (group_calls options key)
                                   (duplicate_groups (byte_identical fs0) xs))
         \<and> fs_inodes (w_fs (resolve_rounds options key xs w)) = fs_inodes (w_fs w)
         \<and> (\<forall>nm. nm \<notin> name ` set xs \<longrightarrow>
               fs_names (w_fs (resolve_rounds options key xs w)) nm = fs_names (w_fs w) nm)"
  using assms
proof (induction "length xs" arbitrary: xs w rule: less_induct)
  case less
  show ?case
  proof (cases xs)
    case Nil
    then show ?thesis by simp
  next
    case (Cons m rest)
    let ?eq = "byte_identical fs0 m"
    let ?good = "filter ?eq rest" and ?bad = "filter (\<lambda>x. \<not> ?eq x) rest"
    let ?R = "compare_round options m rest [] [] 0 w"
    from less.prems Cons have d: "distinct (map name (m # rest))"
      and ag: "\<forall>x \<in> set (m # rest). fs_names (w_fs w) (name x) = fs_names fs0 (name x)"
      by simp_all
    have bad_names: "name x \<notin> name ` set (m # ?good)" if "x \<in> set ?bad" for x
    proof
      assume "name x \<in> name ` set (m # ?good)"
      then obtain y where y: "y \<in> set (m # ?good)" "name x = name y"
        by auto
      with that d have "x = y"
        by (intro distinct_map_eq [OF d]) auto
      with that y(1) d show False
        by auto
    qed
    obtain w2 where
      a: "fs_inodes (w_fs w2) = fs_inodes (w_fs w)"
      and b: "\<forall>nm. nm \<notin> name ` set (m # ?good) \<longrightarrow> fs_names (w_fs w2) nm = fs_names (w_fs w) nm"
      and c: "w_calls w2 = w_calls w @
                (if ?good = [] then [] else group_calls options key (m, ?good))"
      and r: "resolve_rounds options key (m # rest) w = resolve_rounds options key ?bad w2"
    proof (cases "options AND OPT_LINK = 0")
      case link: False
      obtain g1 b1 n1 w1 where R0: "?R = (g1, b1, n1, w1)"
        by (cases ?R)
      with compare_round_link [OF link d less.prems(2) ag, of "[]" "[]" 0]
      have R: "?R = ([], ?bad, 0, w1)"
        and f: "fs_inodes (w_fs w1) = fs_inodes (w_fs w)"
          "\<forall>nm. nm \<notin> name ` set ?good \<longrightarrow> fs_names (w_fs w1) nm = fs_names (w_fs w) nm"
          "w_calls w1 = w_calls w @ map (Call_link m) ?good"
        by simp_all
      have "resolve_rounds options key (m # rest) w = resolve_rounds options key ?bad w1"
        by (simp add: R)
      with f link show ?thesis
        by (intro that [of w1]) (auto simp: group_calls_def)
    next
      case nolink: True
      obtain g1 b1 n1 w1 where R0: "?R = (g1, b1, n1, w1)"
        by (cases ?R)
      with compare_round_nolink [OF nolink less.prems(2) ag, of "[]" "[]" 0]
      have R: "?R = (?good, ?bad, int (length ?good), w1)"
        and f: "w_fs w1 = w_fs w" "w_calls w1 = w_calls w"
        by simp_all
      show ?thesis
      proof (cases "?good = []")
        case True
        then have "resolve_rounds options key (m # rest) w = resolve_rounds options key ?bad w1"
          by (subst resolve_rounds.simps) (simp add: R)
        with f True show ?thesis
          by (intro that [of w1]) simp_all
      next
        case False
        show ?thesis
        proof (cases "options AND OPT_DELETE = 0")
          case True
          let ?w2 = "list_files options m ?good (called (Call_list m ?good) w1)"
          from False True
          have "resolve_rounds options key (m # rest) w = resolve_rounds options key ?bad ?w2"
            by (subst resolve_rounds.simps) (simp add: R)
          with f False True nolink show ?thesis
            by (intro that [of ?w2]) (simp_all add: group_calls_def called_def)
        next
          case del: False
          let ?w2 = "delete_files key m ?good (called (Call_delete key m ?good) w1)"
          from False del
          have "resolve_rounds options key (m # rest) w = resolve_rounds options key ?bad ?w2"
            by (subst resolve_rounds.simps) (simp add: R)
          with f False del nolink
            delete_files_frame [of key m ?good "called (Call_delete key m ?good) w1"]
          show ?thesis
            by (intro that [of ?w2]) (simp_all add: group_calls_def called_def)
        qed
      qed
    qed
    have len: "length ?bad < length xs"
      using Cons by (simp add: le_imp_less_Suc)
    have db: "distinct (map name ?bad)"
      using d by (simp add: distinct_map_filter)
    have ib: "fs_inodes (w_fs w2) = fs_inodes fs0"
      using a less.prems(2) by simp
    have nb: "\<forall>x \<in> set ?bad. fs_names (w_fs w2) (name x) = fs_names fs0 (name x)"
    proof
      fix x assume x: "x \<in> set ?bad"
      with b bad_names have "fs_names (w_fs w2) (name x) = fs_names (w_fs w) (name x)"
        by blast
      with x ag show "fs_names (w_fs w2) (name x) = fs_names fs0 (name x)"
        by simp
    qed
    from less.hyps [OF len db ib nb]
    have ih: "w_calls (resolve_rounds options key ?bad w2)
           = w_calls w2 @ concat (map (group_calls options key)
                                   (duplicate_groups (byte_identical fs0) ?bad))"
      "fs_inodes (w_fs (resolve_rounds options key ?bad w2)) = fs_inodes (w_fs w2)"
      "\<forall>nm. nm \<notin> name ` set ?bad \<longrightarrow>
               fs_names (w_fs (resolve_rounds options key ?bad w2)) nm = fs_names (w_fs w2) nm"
      by simp_all
    have "\<forall>nm. nm \<notin> name ` set (m # rest) \<longrightarrow>
               fs_names (w_fs (resolve_rounds options key ?bad w2)) nm = fs_names (w_fs w) nm"
    proof (intro allI impI)
      fix nm assume nm: "nm \<notin> name ` set (m # rest)"
      then have "nm \<notin> name ` set ?bad" "nm \<notin> name ` set (m # ?good)"
        by auto
      with ih(3) b show "fs_names (w_fs (resolve_rounds options key ?bad w2)) nm
          = fs_names (w_fs w) nm"
        by simp
    qed
    with ih(1,2) a c r Cons show ?thesis
      by simp
  qed
qed


subsection \<open>The rounds partition the list\<close>

lemma duplicate_groups_sound:
  "(m, g) \<in> set (duplicate_groups eq xs)
     \<Longrightarrow> g \<noteq> [] \<and> m \<in> set xs \<and> set g \<subseteq> set xs \<and> (\<forall>x \<in> set g. eq m x)"
proof (induction eq xs rule: duplicate_groups.induct)
  case (1 eq)
  then show ?case by simp
next
  case (2 eq master rest)
  from "2.prems" consider (here) "filter (eq master) rest \<noteq> []" "m = master" "g = filter (eq master) rest"
    | (later) "(m, g) \<in> set (duplicate_groups eq (filter (\<lambda>x. \<not> eq master x) rest))"
    by (auto split: if_splits)
  then show ?case
  proof cases
    case here
    then show ?thesis by auto
  next
    case later
    from "2.IH" [OF later] show ?thesis by auto
  qed
qed

lemma duplicate_groups_complete:
  assumes sym: "\<And>x y. eq x y \<Longrightarrow> eq y x"
    and trans: "\<And>x y z. eq x y \<Longrightarrow> eq y z \<Longrightarrow> eq x z"
    and "distinct xs" "a \<in> set xs" "b \<in> set xs" "a \<noteq> b" "eq a b"
  shows "\<exists>(m, g) \<in> set (duplicate_groups eq xs). a \<in> set (m # g) \<and> b \<in> set (m # g)"
  using assms(3-)
proof (induction "length xs" arbitrary: xs rule: less_induct)
  case less
  from less.prems(2) obtain master rest where xs: "xs = master # rest"
    by (cases xs) auto
  let ?good = "filter (eq master) rest" and ?bad = "filter (\<lambda>x. \<not> eq master x) rest"
  have both: "\<exists>(m, g) \<in> set (duplicate_groups eq xs).
                 a \<in> set (m # g) \<and> b \<in> set (m # g)"
    if "a \<in> set (master # ?good)" "b \<in> set (master # ?good)" "?good \<noteq> []"
    using that xs by (intro bexI [of _ "(master, ?good)"]) simp_all
  consider (a) "a = master" | (b) "b = master" | (rest) "a \<in> set rest" "b \<in> set rest"
    using less.prems(2,3) xs by auto
  then show ?case
  proof cases
    case a
    with less.prems xs have "b \<in> set ?good"
      by auto
    with a show ?thesis
      by (intro both) (auto simp: filter_empty_conv)
  next
    case b
    with less.prems xs sym [of a b] have "a \<in> set ?good"
      by auto
    with b show ?thesis
      by (intro both) (auto simp: filter_empty_conv)
  next
    case rest
    show ?thesis
    proof (cases "eq master a")
      case True
      with trans [OF True less.prems(5)] rest have "a \<in> set ?good" "b \<in> set ?good"
        by simp_all
      then show ?thesis
        by (intro both) (auto simp: filter_empty_conv)
    next
      case False
      have "\<not> eq master b"
      proof
        assume "eq master b"
        from trans [OF this sym [OF less.prems(5)]] False show False
          by simp
      qed
      with False rest have "a \<in> set ?bad" "b \<in> set ?bad"
        by simp_all
      moreover from less.prems(1) xs have "distinct ?bad"
        by simp
      moreover have "length ?bad < length xs"
        using xs by (simp add: le_imp_less_Suc)
      ultimately
      have "\<exists>(m, g) \<in> set (duplicate_groups eq ?bad). a \<in> set (m # g) \<and> b \<in> set (m # g)"
        using less.prems(4,5) by (intro less.hyps)
      with xs show ?thesis
        by auto
    qed
  qed
qed

lemma duplicate_groups_members:
  "set (concat (map (\<lambda>(m, g). m # g) (duplicate_groups eq xs))) \<subseteq> set xs"
  by (induction eq xs rule: duplicate_groups.induct) auto

lemma duplicate_groups_disjoint:
  "distinct xs \<Longrightarrow> distinct (concat (map (\<lambda>(m, g). m # g) (duplicate_groups eq xs)))"
proof (induction eq xs rule: duplicate_groups.induct)
  case (1 eq)
  then show ?case by simp
next
  case (2 eq master rest)
  let ?bad = "filter (\<lambda>x. \<not> eq master x) rest"
  from "2.prems" have "distinct (concat (map (\<lambda>(m, g). m # g) (duplicate_groups eq ?bad)))"
    by (intro "2.IH") simp
  with "2.prems" duplicate_groups_members [of eq ?bad] show ?case
    by auto
qed


subsection \<open>A bucket\<close>

text \<open>The groups of a bucket: the rounds over byte identity, run on the sorted and
  filtered list of the bucket's files.\<close>

definition bucket_groups :: "fs_t \<Rightarrow> 64 word \<Rightarrow> file_list_t \<Rightarrow> (file_t \<times> file_t list) list" where
  "bucket_groups fs0 options fl =
     duplicate_groups (byte_identical fs0) (search_list_of options (files fl))"

lemma set_search_list_of: "set (search_list_of options fl) \<subseteq> set fl"
proof -
  have "set (g_list_sort fl sort_compare) = set fl"
    using mset_g_list_sort [of fl sort_compare, THEN arg_cong, of set_mset] by simp
  with set_keep_unseen [of "{}" "g_list_sort fl sort_compare"] show ?thesis
    by (auto simp: search_list_of_def Let_def filter_links_keep_unseen)
qed

lemma distinct_map_keep_unseen:
  "distinct (map f xs) \<Longrightarrow> distinct (map f (keep_unseen S xs))"
  using set_keep_unseen by (induction xs arbitrary: S) fastforce+

lemma distinct_names_search_list_of:
  assumes "distinct (map name fl)"
  shows "distinct (map name (search_list_of options fl))"
proof -
  have "mset (map name (g_list_sort fl sort_compare)) = mset (map name fl)"
    by (simp add: mset_g_list_sort)
  with assms have "distinct (map name (g_list_sort fl sort_compare))"
    by (metis mset_eq_imp_distinct_iff)
  then show ?thesis
    by (simp add: search_list_of_def Let_def filter_links_keep_unseen distinct_map_keep_unseen)
qed

lemma short_bucket_no_groups:
  assumes "length fl \<le> 1"
  shows "duplicate_groups eq (search_list_of options fl) = []"
proof -
  from assms have "g_list_sort fl sort_compare = fl"
    by (simp add: g_list_sort.simps [of fl])
  moreover from assms have "fl = [] \<or> (\<exists>x. fl = [x])"
    by (cases fl) auto
  ultimately show ?thesis
    by (auto simp: search_list_of_def Let_def filter_links_def)
qed

text \<open>
  Claim C2.  Take a bucket whose files have distinct paths and whose count is the
  length of its list, and a file system \<open>fs0\<close> that the current one agrees with on the
  bucket's paths and on the contents of the inodes.  Then the calls of the action
  functions that \<^verbatim>\<open>digest_foreach\<close> makes are exactly those of the groups of the bucket
  in \<open>fs0\<close>, in order.  In each group every duplicate is byte-identical to the master;
  any two different records of the filtered list that are readable and hold the same
  bytes are in one group; no record is in two groups.  The bucket's processing leaves
  the inodes and every path outside the bucket as they were, so the groups of a bucket
  do not depend on which buckets were processed before it.
\<close>

theorem rounds_give_byte_identical_classes:
  assumes "distinct (map name (files fl))" and "nfile fl = int (length (files fl))"
    and "fs_inodes (w_fs w) = fs_inodes fs0"
    and "\<forall>x \<in> set (files fl). fs_names (w_fs w) (name x) = fs_names fs0 (name x)"
  shows "w_calls (digest_foreach options key fl w)
           = w_calls w @ concat (map (group_calls options key) (bucket_groups fs0 options fl))
         \<and> (\<forall>(m, g) \<in> set (bucket_groups fs0 options fl).
               g \<noteq> [] \<and> (\<forall>x \<in> set g. byte_identical fs0 m x))
         \<and> (\<forall>a \<in> set (search_list_of options (files fl)).
             \<forall>b \<in> set (search_list_of options (files fl)).
               a \<noteq> b \<and> byte_identical fs0 a b \<longrightarrow>
               (\<exists>(m, g) \<in> set (bucket_groups fs0 options fl).
                  a \<in> set (m # g) \<and> b \<in> set (m # g)))
         \<and> distinct (concat (map (\<lambda>(m, g). m # g) (bucket_groups fs0 options fl)))
         \<and> set (concat (map (\<lambda>(m, g). m # g) (bucket_groups fs0 options fl)))
               \<subseteq> set (search_list_of options (files fl))
         \<and> fs_inodes (w_fs (digest_foreach options key fl w)) = fs_inodes (w_fs w)
         \<and> (\<forall>nm. nm \<notin> name ` set (files fl) \<longrightarrow>
               fs_names (w_fs (digest_foreach options key fl w)) nm = fs_names (w_fs w) nm)"
proof -
  let ?xs = "search_list_of options (files fl)"
  have dn: "distinct (map name ?xs)"
    using assms(1) by (rule distinct_names_search_list_of)
  then have dx: "distinct ?xs"
    by (simp add: distinct_map)
  have ag: "\<forall>x \<in> set ?xs. fs_names (w_fs w) (name x) = fs_names fs0 (name x)"
    using assms(4) set_search_list_of [of options "files fl"] by blast
  have calls: "w_calls (digest_foreach options key fl w)
           = w_calls w @ concat (map (group_calls options key) (bucket_groups fs0 options fl))"
  proof (cases "1 < nfile fl")
    case True
    with resolve_rounds_spec [OF dn assms(3) ag, of options key] show ?thesis
      by (simp add: digest_foreach_def bucket_groups_def)
  next
    case False
    with assms(2) have "length (files fl) \<le> 1"
      by simp
    with False show ?thesis
      by (simp add: digest_foreach_def bucket_groups_def short_bucket_no_groups)
  qed
  have sound: "\<forall>(m, g) \<in> set (bucket_groups fs0 options fl).
               g \<noteq> [] \<and> (\<forall>x \<in> set g. byte_identical fs0 m x)"
    using duplicate_groups_sound [of _ _ "byte_identical fs0" ?xs]
    by (auto simp: bucket_groups_def)
  have complete: "\<forall>a \<in> set ?xs. \<forall>b \<in> set ?xs.
               a \<noteq> b \<and> byte_identical fs0 a b \<longrightarrow>
               (\<exists>(m, g) \<in> set (bucket_groups fs0 options fl).
                  a \<in> set (m # g) \<and> b \<in> set (m # g))"
  proof (intro ballI impI)
    fix a b
    assume "a \<in> set ?xs" "b \<in> set ?xs" "a \<noteq> b \<and> byte_identical fs0 a b"
    then show "\<exists>(m, g) \<in> set (bucket_groups fs0 options fl). a \<in> set (m # g) \<and> b \<in> set (m # g)"
      unfolding bucket_groups_def
      by (intro duplicate_groups_complete [OF byte_identical_sym byte_identical_trans dx]) simp_all
  qed
  have frame: "fs_inodes (w_fs (digest_foreach options key fl w)) = fs_inodes (w_fs w)
         \<and> (\<forall>nm. nm \<notin> name ` set (files fl) \<longrightarrow>
               fs_names (w_fs (digest_foreach options key fl w)) nm = fs_names (w_fs w) nm)"
  proof (cases "1 < nfile fl")
    case True
    have "nm \<notin> name ` set ?xs" if "nm \<notin> name ` set (files fl)" for nm
      using that set_search_list_of [of options "files fl"] by blast
    with True resolve_rounds_spec [OF dn assms(3) ag, of options key] show ?thesis
      by (simp add: digest_foreach_def)
  next
    case False
    then show ?thesis
      by (simp add: digest_foreach_def)
  qed
  from calls sound complete dx frame
    duplicate_groups_disjoint [of ?xs "byte_identical fs0"]
    duplicate_groups_members [of "byte_identical fs0" ?xs]
  show ?thesis
    unfolding bucket_groups_def by blast
qed

lemma example_identical:
  "byte_identical example_fs (example_links ''a'' 2 21) (example_links ''b'' 2 22)"
  "\<not> byte_identical example_fs (example_links ''a'' 2 21) (example_links ''c'' 2 23)"
  "\<not> byte_identical example_fs (example_links ''b'' 2 22) (example_links ''c'' 2 23)"
  by (simp_all add: byte_identical_def readable_def bytes_of_def sys_open_def example_chunks
        example_links_def example_file_def
        example_fs_def [THEN arg_cong, of fs_names] example_fs_def [THEN arg_cong, of fs_inodes])

lemma example_search_list:
  "search_list_of 0 [example_links ''c'' 2 23, example_links ''a'' 2 21, example_links ''b'' 2 22]
     = [example_links ''a'' 2 21, example_links ''b'' 2 22, example_links ''c'' 2 23]"
  by (simp add: search_list_of_def g_list_sort.simps sort_compare_def to_gint_def
        filter_links_def example_links_def example_file_def OPT_HARDLINKS_def)

theorem rounds_give_byte_identical_classes_witness:
  "distinct (map name [example_links ''c'' 2 23, example_links ''a'' 2 21, example_links ''b'' 2 22])
   \<and> w_calls (digest_foreach 0 ''xxx''
         \<lparr>nfile = 3,
            files = [example_links ''c'' 2 23, example_links ''a'' 2 21, example_links ''b'' 2 22]\<rparr>
         (example_world []))
       = [Call_list (example_links ''a'' 2 21) [example_links ''b'' 2 22]]"
proof -
  let ?fl = "\<lparr>nfile = 3,
            files = [example_links ''c'' 2 23, example_links ''a'' 2 21, example_links ''b'' 2 22]\<rparr>"
  have d: "distinct (map name (files ?fl))"
    by (simp add: example_links_def example_file_def)
  have n: "nfile ?fl = int (length (files ?fl))"
    by simp
  have i: "fs_inodes (w_fs (example_world [])) = fs_inodes example_fs"
    "\<forall>x \<in> set (files ?fl).
        fs_names (w_fs (example_world [])) (name x) = fs_names example_fs (name x)"
    by (simp_all add: example_world_def)
  have g: "bucket_groups example_fs 0 ?fl
             = [(example_links ''a'' 2 21, [example_links ''b'' 2 22])]"
    by (simp add: bucket_groups_def example_search_list example_identical)
  from rounds_give_byte_identical_classes [OF d n i, of 0 "''xxx''"] d show ?thesis
    by (simp add: g group_calls_def OPT_LINK_def OPT_DELETE_def example_world_def)
qed


section \<open>End of input in the interactive session\<close>

lemma fgets_lines_Nil [simp]: "fgets_lines [] = []"
  by (rule fgets_lines_None) (simp add: fgets_def)

lemma resolve_rounds_no_go:
  assumes "options AND OPT_LINK = 0"
    and "\<forall>buf \<in> set (fgets_lines (w_stdin w)). strncmp buf ''go'' 2 \<noteq> 0"
  shows "w_fs (resolve_rounds options key xs w) = w_fs w"
  using assms(2)
proof (induction "length xs" arbitrary: xs w rule: less_induct)
  case less
  show ?case
  proof (cases xs)
    case Nil
    then show ?thesis by simp
  next
    case (Cons m rest)
    let ?eq = "byte_identical (w_fs w) m"
    let ?good = "filter ?eq rest" and ?bad = "filter (\<lambda>x. \<not> ?eq x) rest"
    let ?R = "compare_round options m rest [] [] 0 w"
    obtain g1 b1 n1 w1 where R0: "?R = (g1, b1, n1, w1)"
      by (cases ?R)
    with compare_round_nolink [OF assms(1), of w "w_fs w" m rest "[]" "[]" 0]
    have R: "?R = (?good, ?bad, int (length ?good), w1)"
      and f: "w_fs w1 = w_fs w" "w_stdin w1 = w_stdin w"
      by simp_all
    obtain w2 where r: "resolve_rounds options key (m # rest) w = resolve_rounds options key ?bad w2"
      and f2: "w_fs w2 = w_fs w"
      and ng: "\<forall>buf \<in> set (fgets_lines (w_stdin w2)). strncmp buf ''go'' 2 \<noteq> 0"
    proof (cases "?good \<noteq> [] \<and> options AND OPT_DELETE \<noteq> 0")
      case True
      let ?w2 = "delete_files key m ?good (called (Call_delete key m ?good) w1)"
      have "\<forall>buf \<in> set (fgets_lines (w_stdin (called (Call_delete key m ?good) w1))).
              strncmp buf ''go'' 2 \<noteq> 0"
        using less.prems f by (simp add: called_def)
      from delete_loop_no_go [OF this] f
      have "w_fs ?w2 = w_fs w" "w_stdin ?w2 = []"
        by (simp_all add: delete_files_def called_def)
      moreover from True
      have "resolve_rounds options key (m # rest) w = resolve_rounds options key ?bad ?w2"
        by (subst resolve_rounds.simps) (simp add: R)
      ultimately show ?thesis
        by (intro that [of ?w2]) simp_all
    next
      case False
      let ?w2 = "if ?good = [] then w1
                 else list_files options m ?good (called (Call_list m ?good) w1)"
      from False
      have "resolve_rounds options key (m # rest) w = resolve_rounds options key ?bad ?w2"
        by (subst resolve_rounds.simps) (auto simp add: R)
      with f less.prems show ?thesis
        by (intro that [of ?w2]) (simp_all add: called_def)
    qed
    have "length ?bad < length xs"
      using Cons by (simp add: le_imp_less_Suc)
    from less.hyps [OF this ng] r f2 Cons show ?thesis
      by simp
  qed
qed

lemma concat_singletons: "concat (map (\<lambda>x. [f x]) xs) = map f xs"
  by (induction xs) simp_all

text \<open>
  Claim C8.  When the input ends without a line that starts with \<^verbatim>\<open>go\<close>, the session
  returns with the file system unchanged, the input used up and the end-of-file notice
  printed last.  The rounds of the bucket go on after it: with link mode off the whole
  bucket leaves the file system unchanged, and in delete mode every group of the bucket
  still gets its session.
\<close>

theorem eof_without_go_deletes_nothing:
  assumes "\<forall>buf \<in> set (fgets_lines (w_stdin w)). take 2 buf \<noteq> ''go''"
  shows "w_fs (delete_files dg master list w) = w_fs w
         \<and> w_stdin (delete_files dg master list w) = []
         \<and> last (w_stdout (delete_files dg master list w))
             = (''*** EOF *** no action taken\<newline>'', [])
         \<and> (options AND OPT_LINK = 0 \<longrightarrow>
               w_fs (resolve_rounds options key xs w) = w_fs w)
         \<and> (options AND OPT_LINK = 0 \<and> options AND OPT_DELETE \<noteq> 0 \<and> distinct (map name xs) \<longrightarrow>
               w_calls (resolve_rounds options key xs w)
                 = w_calls w @ map (\<lambda>(m, g). Call_delete key m g)
                                 (duplicate_groups (byte_identical (w_fs w)) xs))"
proof -
  from assms have ng: "\<forall>buf \<in> set (fgets_lines (w_stdin w)). strncmp buf ''go'' 2 \<noteq> 0"
    by (simp add: strncmp_go)
  have "w_calls (resolve_rounds options key xs w)
                 = w_calls w @ map (\<lambda>(m, g). Call_delete key m g)
                                 (duplicate_groups (byte_identical (w_fs w)) xs)"
    if "options AND OPT_LINK = 0" "options AND OPT_DELETE \<noteq> 0" "distinct (map name xs)"
  proof -
    from that(1,2) have "group_calls options key = (\<lambda>(m, g). [Call_delete key m g])"
      by (auto simp: group_calls_def fun_eq_iff)
    with resolve_rounds_spec [OF that(3), of w "w_fs w" options key] show ?thesis
      by (simp add: concat_singletons case_prod_unfold)
  qed
  with delete_loop_no_go [OF ng] resolve_rounds_no_go [OF _ ng] show ?thesis
    by (simp add: delete_files_def)
qed

lemma example_abort_lines: "fgets_lines ''2\<newline>'' = [''2\<newline>'']"
proof -
  have "fgets 20 ''2\<newline>'' = Some (''2\<newline>'', [])"
    by (simp add: fgets_def c_str_def eval_nat_numeral)
  then show ?thesis
    by (simp add: fgets_lines_Some)
qed

theorem eof_without_go_deletes_nothing_witness:
  "fgets_lines (w_stdin (example_world ''2\<newline>'')) = [''2\<newline>'']
   \<and> take 2 ''2\<newline>'' \<noteq> ''go''
   \<and> w_fs (delete_files ''k'' (example_file ''a'') [example_file ''b'']
             (example_world ''2\<newline>'')) = example_fs
   \<and> (0 :: 64 word) AND OPT_LINK = 0
   \<and> w_fs (resolve_rounds 0 ''k'' [example_file ''a'', example_file ''b'']
             (example_world ''2\<newline>'')) = example_fs"
proof -
  have h: "\<forall>buf \<in> set (fgets_lines (w_stdin (example_world ''2\<newline>''))). take 2 buf \<noteq> ''go''"
    by (simp add: example_world_def example_abort_lines)
  from eof_without_go_deletes_nothing
         [OF h, of "''k''" "example_file ''a''" "[example_file ''b'']" 0 "''k''"
            "[example_file ''a'', example_file ''b'']"] h
  show ?thesis
    by (simp add: example_world_def example_abort_lines)
qed

end
